theory Spec2Isabelle
  imports Main "HOL-Library.Word"
begin

section \<open>Value types: variables and literals (sdd++.hpp)\<close>

text \<open>
  \<^verbatim>\<open>class variable { unsigned _var; }\<close> and \<^verbatim>\<open>class literal { long _lit; }\<close>.
  The header asserts \<^verbatim>\<open>sizeof(unsigned) < sizeof(long)\<close>; the usual LP64 sizes are taken:
  \<^verbatim>\<open>unsigned\<close> is a 32-bit word, \<^verbatim>\<open>long\<close> (the engine's \<^verbatim>\<open>SddLiteral\<close>) a 64-bit word
  read in two's complement. \<^verbatim>\<open>size_t\<close> values (\<^verbatim>\<open>var_count()\<close>, loop indices into vectors)
  are natural numbers.
\<close>

type_synonym long = "64 word"
type_synonym unsigned = "32 word"
type_synonym variable = unsigned
type_synonym literal = long

text \<open>\<^verbatim>\<open>literal(class variable var) : _lit{unsigned(var)}\<close>: zero extension.\<close>

definition lit_of_var :: "variable \<Rightarrow> literal" where
  "lit_of_var var = ucast var"

text \<open>
  \<^verbatim>\<open>literal operator!() const { return literal{-_lit}; }\<close>. Negation of a 64-bit word wraps;
  at \<^verbatim>\<open>LONG_MIN\<close> (where C++ leaves signed negation undefined) the two's complement
  result \<^verbatim>\<open>LONG_MIN\<close> is taken.
\<close>

definition lit_not :: "literal \<Rightarrow> literal" where
  "lit_not l = - l"

text \<open>\<^verbatim>\<open>explicit operator bool() const { return _lit > 0; }\<close>: signed comparison.\<close>

definition lit_bool :: "literal \<Rightarrow> bool" where
  "lit_bool l \<longleftrightarrow> 0 <s l"

text \<open>
  \<^verbatim>\<open>variable() const { return _lit > 0 ? unsigned(_lit) : unsigned(-_lit); }\<close>: the
  conversion \<^verbatim>\<open>long\<close> to \<^verbatim>\<open>unsigned\<close> keeps the low 32 bits.
\<close>

definition lit_variable :: "literal \<Rightarrow> variable" where
  "lit_variable l = (if 0 <s l then ucast l else ucast (- l))"

text \<open>\<^verbatim>\<open>literal variable::operator!() const { return !literal{*this}; }\<close>\<close>

definition var_not :: "variable \<Rightarrow> literal" where
  "var_not var = lit_not (lit_of_var var)"

text \<open>The two literals of a variable: \<open>literal{var}\<close> and \<open>!literal{var}\<close>.\<close>

definition lit_for :: "literal \<Rightarrow> variable \<Rightarrow> bool" where
  "lit_for l v \<longleftrightarrow> l = lit_of_var v \<or> l = lit_not (lit_of_var v)"

section \<open>The engine interface (libsdd, external)\<close>

text \<open>
  The wrapper reaches the SDD engine only through the C primitives below. The engine is
  not part of the repository, so it is a parameter of every wrapper function: a record
  of the primitives of one manager (\<^verbatim>\<open>manager::sdd()\<close>), over an arbitrary type \<open>'n\<close> of
  engine nodes (\<^verbatim>\<open>SddNode *\<close>). A node handle of the wrapper is modelled by the engine
  node it holds; all handles in one formula belong to the one manager \<open>E\<close>.
  Arrays passed to or returned by the engine (\<^verbatim>\<open>int *\<close>, \<^verbatim>\<open>SddLiteral *\<close>) are lists.
\<close>

record 'n engine =
  sdd_manager_var_count :: nat
  sdd_manager_literal :: "long \<Rightarrow> 'n"
  sdd_manager_true :: 'n
  sdd_manager_false :: 'n
  sdd_negate :: "'n \<Rightarrow> 'n"
  sdd_conjoin :: "'n \<Rightarrow> 'n \<Rightarrow> 'n"
  sdd_disjoin :: "'n \<Rightarrow> 'n \<Rightarrow> 'n"
  sdd_exists :: "long \<Rightarrow> 'n \<Rightarrow> 'n"
  sdd_exists_multiple :: "int list \<Rightarrow> 'n \<Rightarrow> 'n"
  sdd_forall :: "long \<Rightarrow> 'n \<Rightarrow> 'n"
  sdd_condition :: "long \<Rightarrow> 'n \<Rightarrow> 'n"
  sdd_rename_variables :: "'n \<Rightarrow> long list \<Rightarrow> 'n"
  sdd_node_is_true :: "'n \<Rightarrow> bool"
  sdd_node_is_false :: "'n \<Rightarrow> bool"
  sdd_variables :: "'n \<Rightarrow> int list"

section \<open>The wrapper (sdd.cpp)\<close>

text \<open>
  Exceptions and undefined behaviour are values: \<^verbatim>\<open>std::invalid_argument\<close> with its
  message, \<^verbatim>\<open>std::out_of_range\<close> (thrown by \<^verbatim>\<open>vector::at\<close>), and a write through
  \<^verbatim>\<open>vector::operator[]\<close> outside the vector.
\<close>

datatype error = InvalidArgument string | OutOfRange | UndefinedBehaviour

subsection \<open>manager\<close>

definition var_count :: "'n engine \<Rightarrow> nat" where
  "var_count E = sdd_manager_var_count E"

text \<open>
  \<^verbatim>\<open>
  node manager::literal(sdd::literal lit) {
    sdd::variable var = lit.variable();
    if(unsigned(var) > var_count())
      throw std::invalid_argument("literal too large");
    return node{this, sdd_manager_literal(SddLiteral(lit), sdd())};
  }\<close>
\<close>

definition mgr_literal :: "'n engine \<Rightarrow> literal \<Rightarrow> error + 'n" where
  "mgr_literal E lit =
     (let var = lit_variable lit
      in if unat var > var_count E then Inl (InvalidArgument ''literal too large'')
         else Inr (sdd_manager_literal E lit))"

definition top :: "'n engine \<Rightarrow> 'n" where
  "top E = sdd_manager_true E"


subsection \<open>node: algebra and quantification\<close>

text \<open>
  \<^verbatim>\<open>
  auto vars = make_array_ptr(sdd_variables(sdd(), manager()->sdd()));
  for(unsigned i = 1; i <= manager()->var_count(); ++i)
    if(vars[i]) result.push_back(variable{i});\<close>

  The counter is an \<^verbatim>\<open>unsigned\<close>; it runs over \<open>1..var_count\<close> without wrapping as long as
  \<open>var_count + 1 < 2^32\<close>, which the engine contract below requires.
\<close>

definition variables :: "'n engine \<Rightarrow> 'n \<Rightarrow> variable list" where
  "variables E n =
     (let vars = sdd_variables E n
      in map word_of_nat (filter (\<lambda>i. vars ! i \<noteq> 0) [1..<Suc (var_count E)]))"

definition negate :: "'n engine \<Rightarrow> 'n \<Rightarrow> 'n" where
  "negate E n = sdd_negate E n"

definition conjoin :: "'n engine \<Rightarrow> 'n \<Rightarrow> 'n \<Rightarrow> 'n" where
  "conjoin E n1 n2 = sdd_conjoin E n1 n2"

definition disjoin :: "'n engine \<Rightarrow> 'n \<Rightarrow> 'n \<Rightarrow> 'n" where
  "disjoin E n1 n2 = sdd_disjoin E n1 n2"

text \<open>\<^verbatim>\<open>exists(variable var, node n)\<close>: \<^verbatim>\<open>sdd_exists(SddLiteral(unsigned{var}), ...)\<close>.\<close>

definition exists_var :: "'n engine \<Rightarrow> variable \<Rightarrow> 'n \<Rightarrow> 'n" where
  "exists_var E var n = sdd_exists E (ucast var) n"

text \<open>
  \<^verbatim>\<open>
  std::vector<int> map(n.manager()->var_count() + 1, 0);
  for(auto var : vars) map[unsigned(var)] = 1;
  return node{..., sdd_exists_multiple(map.data(), n.sdd(), ...)};\<close>

  \<^verbatim>\<open>operator[]\<close> does not check its index: a variable above \<open>var_count\<close> writes outside
  the vector.
\<close>

definition exists_vars :: "'n engine \<Rightarrow> variable list \<Rightarrow> 'n \<Rightarrow> error + 'n" where
  "exists_vars E vars n =
     (if list_ex (\<lambda>var. unat var > var_count E) vars then Inl UndefinedBehaviour
      else Inr (sdd_exists_multiple E
                  (fold (\<lambda>var m. m[unat var := 1]) vars (replicate (var_count E + 1) 0)) n))"

text \<open>\<^verbatim>\<open>forall(vars, n) { return !exists(vars, !n); }\<close>\<close>

definition forall_vars :: "'n engine \<Rightarrow> variable list \<Rightarrow> 'n \<Rightarrow> error + 'n" where
  "forall_vars E vars n =
     (case exists_vars E vars (negate E n) of
        Inl e \<Rightarrow> Inl e
      | Inr m \<Rightarrow> Inr (negate E m))"

text \<open>\<^verbatim>\<open>forall(variable var, node n)\<close>: \<^verbatim>\<open>sdd_forall(SddLiteral(unsigned{var}), ...)\<close>.\<close>

definition forall_var :: "'n engine \<Rightarrow> variable \<Rightarrow> 'n \<Rightarrow> 'n" where
  "forall_var E var n = sdd_forall E (ucast var) n"

definition implies :: "'n engine \<Rightarrow> 'n \<Rightarrow> 'n \<Rightarrow> 'n" where
  "implies E n1 n2 = disjoin E (negate E n1) n2"

definition iff :: "'n engine \<Rightarrow> 'n \<Rightarrow> 'n \<Rightarrow> 'n" where
  "iff E n1 n2 = conjoin E (implies E n1 n2) (implies E n2 n1)"

subsection \<open>node: tests, conditioning, value\<close>

definition is_valid :: "'n engine \<Rightarrow> 'n \<Rightarrow> bool" where
  "is_valid E n = sdd_node_is_true E n"

definition is_unsat :: "'n engine \<Rightarrow> 'n \<Rightarrow> bool" where
  "is_unsat E n = sdd_node_is_false E n"

definition is_sat :: "'n engine \<Rightarrow> 'n \<Rightarrow> bool" where
  "is_sat E n = (\<not> is_unsat E n)"

text \<open>\<^verbatim>\<open>node::condition(literal lit)\<close>: \<^verbatim>\<open>sdd_condition(SddLiteral(lit), sdd(), ...)\<close>.\<close>

definition condition :: "'n engine \<Rightarrow> 'n \<Rightarrow> literal \<Rightarrow> 'n" where
  "condition E n lit = sdd_condition E lit n"

text \<open>
  \<^verbatim>\<open>
  node n = *this;
  for(auto lit : lits) {
    n = n.condition(lit);
    if(n.is_valid() || n.is_unsat()) break;
  }
  return n;\<close>
\<close>

fun condition_lits :: "'n engine \<Rightarrow> 'n \<Rightarrow> literal list \<Rightarrow> 'n" where
  "condition_lits E n [] = n"
| "condition_lits E n (lit # lits) =
     (let n' = condition E n lit
      in if is_valid E n' \<or> is_unsat E n' then n' else condition_lits E n' lits)"

text \<open>
  \<^verbatim>\<open>
  if(condition(lit).is_unsat()) return false;
  if(condition(!lit).is_unsat()) return true;
  return {};\<close>
\<close>

definition node_value :: "'n engine \<Rightarrow> 'n \<Rightarrow> literal \<Rightarrow> bool option" where
  "node_value E n lit =
     (if is_unsat E (condition E n lit) then Some False
      else if is_unsat E (condition E n (lit_not lit)) then Some True
      else None)"

subsection \<open>node: rename\<close>

text \<open>
  \<^verbatim>\<open>
  node node::rename(std::function<sdd::variable(sdd::variable)> renaming) {
    size_t n = manager()->var_count();
    auto map = std::make_unique<SddLiteral[]>(n + 1);
    for(unsigned i = 1; i <= n; i++)
      map[i] = SddLiteral(sdd::literal(renaming(i)));
    assert(manager()->var_count() == n);
    return node{manager(), sdd_rename_variables(sdd(), map.get(), manager()->sdd())};
  }\<close>

  The callback is arbitrary code: it may reach the manager (and add variables), so it
  takes the manager's state and returns the new one. \<^verbatim>\<open>make_unique<SddLiteral[]>(n + 1)\<close>
  value-initialises the array to zeros. \<^verbatim>\<open>assert\<close> is taken as compiled in (no
  \<^verbatim>\<open>NDEBUG\<close>): a failed assertion calls \<^verbatim>\<open>abort()\<close>, which is the outcome \<open>Aborted\<close>, not
  an exception. The third component of the result lists the engine primitives that
  \<^verbatim>\<open>rename\<close> itself calls, in order.
\<close>

datatype 'a outcome = Aborted | Returned 'a

datatype engine_call = Call_var_count | Call_rename_variables "long list"

fun rename_fill ::
  "(variable \<Rightarrow> 's \<Rightarrow> variable \<times> 's) \<Rightarrow> nat list \<Rightarrow> 's \<Rightarrow> long list \<Rightarrow> long list \<times> 's" where
  "rename_fill renaming [] s m = (m, s)"
| "rename_fill renaming (i # is) s m =
     (case renaming (word_of_nat i) s of
        (var, s') \<Rightarrow> rename_fill renaming is s' (m[i := lit_of_var var]))"

definition rename ::
  "'n engine \<Rightarrow> (variable \<Rightarrow> 'n engine \<Rightarrow> variable \<times> 'n engine) \<Rightarrow> 'n
     \<Rightarrow> 'n outcome \<times> 'n engine \<times> engine_call list" where
  "rename E renaming nd =
     (let n = var_count E
      in case rename_fill renaming [1..<Suc n] E (replicate (n + 1) 0) of
           (m, E') \<Rightarrow>
             if var_count E' \<noteq> n then (Aborted, E', [Call_var_count, Call_var_count])
             else (Returned (sdd_rename_variables E' nd m), E',
                   [Call_var_count, Call_var_count, Call_rename_variables m]))"

text \<open>
  \<^verbatim>\<open>
  node node::rename(std::unordered_map<sdd::variable, sdd::variable> const& map) {
    return rename([&](variable var) {
      if(map.contains(var)) return map.at(var);
      return var;
    });
  }\<close>
\<close>

definition rename_map ::
  "'n engine \<Rightarrow> (variable \<rightharpoonup> variable) \<Rightarrow> 'n \<Rightarrow> 'n outcome \<times> 'n engine \<times> engine_call list" where
  "rename_map E m nd =
     rename E (\<lambda>var s. (case m var of Some var' \<Rightarrow> (var', s) | None \<Rightarrow> (var, s))) nd"

subsection \<open>node: model\<close>

text \<open>
  \<^verbatim>\<open>
  std::vector<sdd::literal> model;
  auto vars = variables();
  node n = *this;
  size_t i = 0;
  while(true) { // vars.size() iterations max anyway
    if(n.is_unsat()) return {};
    if(n.is_valid()) return model;
    class literal lit = vars.at(i);
    node choice = n.condition(lit);
    if(choice.is_unsat()) {
      lit = !lit;
      choice = n.condition(lit);
    }
    model.push_back(lit);
    n = choice;
    ++i;
  }\<close>

  \<^verbatim>\<open>vars.at(i)\<close> throws \<^verbatim>\<open>std::out_of_range\<close> once \<open>i\<close> reaches \<^verbatim>\<open>vars.size()\<close>, so the loop
  always ends. The loop function returns, beside the result, the final value of the
  counter \<open>i\<close>: the number of iterations that ran to their end.
\<close>

function model_loop ::
  "'n engine \<Rightarrow> variable list \<Rightarrow> 'n \<Rightarrow> nat \<Rightarrow> literal list
     \<Rightarrow> (error + literal list option) \<times> nat" where
  "model_loop E vars n i model =
     (if is_unsat E n then (Inr None, i)
      else if is_valid E n then (Inr (Some model), i)
      else if length vars \<le> i then (Inl OutOfRange, i)
      else let lit = lit_of_var (vars ! i);
               choice = condition E n lit;
               lit' = (if is_unsat E choice then lit_not lit else lit);
               choice' = (if is_unsat E choice then condition E n (lit_not lit) else choice)
           in model_loop E vars choice' (Suc i) (model @ [lit']))"
  by pat_completeness auto
termination
  by (relation "measure (\<lambda>(E, vars, n, i, model). length vars - i)") auto

declare model_loop.simps [simp del]

definition model :: "'n engine \<Rightarrow> 'n \<Rightarrow> error + literal list option" where
  "model E n = fst (model_loop E (variables E n) n 0 [])"

definition model_iterations :: "'n engine \<Rightarrow> 'n \<Rightarrow> nat" where
  "model_iterations E n = snd (model_loop E (variables E n) n 0 [])"

section \<open>The engine's contract\<close>

text \<open>
  Modelled from the spec: the external engine (libsdd), which the repository only calls.
  The spec describes its primitives as the Boolean operations on canonical diagrams:
  a node denotes a Boolean function of the variables \<open>1..var_count\<close>; two nodes of one
  manager are the same node exactly when they denote the same function; negate, conjoin
  and disjoin are NOT, AND and OR; conditioning on a literal fixes the literal's variable
  to its polarity; exists and forall quantify one variable, \<open>exists_multiple\<close> the variables
  marked in its mask; \<open>is_true\<close> and \<open>is_false\<close> recognise the constants; the variables
  bitmap marks the variables the function depends on; conditioning a constant node is a
  no-op. The contract is a predicate on an engine \<open>E\<close>, on the set \<open>ok\<close> of nodes of its
  manager and on their denotation \<open>sem\<close>; theorems about the wrapper assume it, and the
  reference engine below satisfies it.
\<close>

type_synonym assignment = "nat \<Rightarrow> bool"

text \<open>The engine reads an \<^verbatim>\<open>SddLiteral\<close> \<open>l\<close> as the variable \<open>|l|\<close> with the polarity \<open>l > 0\<close>.\<close>

definition sdd_var :: "long \<Rightarrow> nat" where
  "sdd_var l = nat \<bar>sint l\<bar>"

definition sdd_pos :: "long \<Rightarrow> bool" where
  "sdd_pos l \<longleftrightarrow> 0 < sint l"

definition sdd_lit_ok :: "'n engine \<Rightarrow> long \<Rightarrow> bool" where
  "sdd_lit_ok E l \<longleftrightarrow> 1 \<le> sdd_var l \<and> sdd_var l \<le> sdd_manager_var_count E"

definition condition_keeps_constants :: "'n engine \<Rightarrow> bool" where
  "condition_keeps_constants E \<longleftrightarrow>
     (\<forall>l n. sdd_node_is_true E n \<or> sdd_node_is_false E n \<longrightarrow> sdd_condition E l n = n)"

definition engine_closed :: "'n engine \<Rightarrow> ('n \<Rightarrow> bool) \<Rightarrow> bool" where
  "engine_closed E ok \<longleftrightarrow>
     ok (sdd_manager_true E) \<and> ok (sdd_manager_false E) \<and>
     (\<forall>l. sdd_lit_ok E l \<longrightarrow> ok (sdd_manager_literal E l)) \<and>
     (\<forall>n. ok n \<longrightarrow> ok (sdd_negate E n)) \<and>
     (\<forall>n m. ok n \<and> ok m \<longrightarrow> ok (sdd_conjoin E n m) \<and> ok (sdd_disjoin E n m)) \<and>
     (\<forall>l n. sdd_lit_ok E l \<and> ok n \<longrightarrow>
        ok (sdd_condition E l n) \<and> ok (sdd_exists E l n) \<and> ok (sdd_forall E l n)) \<and>
     (\<forall>msk n. ok n \<and> length msk = Suc (sdd_manager_var_count E) \<longrightarrow>
        ok (sdd_exists_multiple E msk n))"

definition engine_canonical :: "('n \<Rightarrow> bool) \<Rightarrow> ('n \<Rightarrow> assignment \<Rightarrow> bool) \<Rightarrow> bool" where
  "engine_canonical ok sem \<longleftrightarrow> (\<forall>n m. ok n \<and> ok m \<and> (\<forall>a. sem n a = sem m a) \<longrightarrow> n = m)"

definition engine_sem :: "'n engine \<Rightarrow> ('n \<Rightarrow> bool) \<Rightarrow> ('n \<Rightarrow> assignment \<Rightarrow> bool) \<Rightarrow> bool" where
  "engine_sem E ok sem \<longleftrightarrow>
     (\<forall>a. sem (sdd_manager_true E) a) \<and>
     (\<forall>a. \<not> sem (sdd_manager_false E) a) \<and>
     (\<forall>l a. sdd_lit_ok E l \<longrightarrow> sem (sdd_manager_literal E l) a = (a (sdd_var l) = sdd_pos l)) \<and>
     (\<forall>n a. ok n \<longrightarrow> sem (sdd_negate E n) a = (\<not> sem n a)) \<and>
     (\<forall>n m a. ok n \<and> ok m \<longrightarrow> sem (sdd_conjoin E n m) a = (sem n a \<and> sem m a)) \<and>
     (\<forall>n m a. ok n \<and> ok m \<longrightarrow> sem (sdd_disjoin E n m) a = (sem n a \<or> sem m a)) \<and>
     (\<forall>l n a. sdd_lit_ok E l \<and> ok n \<longrightarrow>
        sem (sdd_condition E l n) a = sem n (a(sdd_var l := sdd_pos l))) \<and>
     (\<forall>l n a. sdd_lit_ok E l \<and> sdd_pos l \<and> ok n \<longrightarrow>
        sem (sdd_exists E l n) a = (sem n (a(sdd_var l := True)) \<or> sem n (a(sdd_var l := False)))) \<and>
     (\<forall>l n a. sdd_lit_ok E l \<and> sdd_pos l \<and> ok n \<longrightarrow>
        sem (sdd_forall E l n) a = (sem n (a(sdd_var l := True)) \<and> sem n (a(sdd_var l := False)))) \<and>
     (\<forall>msk n a. ok n \<and> length msk = Suc (sdd_manager_var_count E) \<longrightarrow>
        sem (sdd_exists_multiple E msk n) a =
          (\<exists>b. (\<forall>i. (1 \<le> i \<and> i \<le> sdd_manager_var_count E \<and> msk ! i \<noteq> 0) \<or> b i = a i) \<and> sem n b))"

definition engine_tests :: "'n engine \<Rightarrow> ('n \<Rightarrow> bool) \<Rightarrow> ('n \<Rightarrow> assignment \<Rightarrow> bool) \<Rightarrow> bool" where
  "engine_tests E ok sem \<longleftrightarrow>
     (\<forall>n. ok n \<longrightarrow> sdd_node_is_true E n = (\<forall>a. sem n a)) \<and>
     (\<forall>n. ok n \<longrightarrow> sdd_node_is_false E n = (\<forall>a. \<not> sem n a))"

definition depends_only_on :: "(assignment \<Rightarrow> bool) \<Rightarrow> nat set \<Rightarrow> bool" where
  "depends_only_on f V \<longleftrightarrow> (\<forall>a b. (\<forall>v\<in>V. a v = b v) \<longrightarrow> f a = f b)"

definition depends_on :: "(assignment \<Rightarrow> bool) \<Rightarrow> nat \<Rightarrow> bool" where
  "depends_on f v \<longleftrightarrow> (\<exists>a. f (a(v := True)) \<noteq> f (a(v := False)))"

text \<open>The variables marked in the bitmap that \<^verbatim>\<open>sdd_variables\<close> returns.\<close>

definition support_of :: "'n engine \<Rightarrow> 'n \<Rightarrow> nat set" where
  "support_of E n = {i. 1 \<le> i \<and> i \<le> sdd_manager_var_count E \<and> sdd_variables E n ! i \<noteq> 0}"

definition engine_support :: "'n engine \<Rightarrow> ('n \<Rightarrow> bool) \<Rightarrow> ('n \<Rightarrow> assignment \<Rightarrow> bool) \<Rightarrow> bool" where
  "engine_support E ok sem \<longleftrightarrow>
     (\<forall>n. ok n \<longrightarrow>
        length (sdd_variables E n) = Suc (sdd_manager_var_count E) \<and>
        depends_only_on (sem n) (support_of E n) \<and>
        (\<forall>i\<in>support_of E n. depends_on (sem n) i))"

definition sdd_contract :: "'n engine \<Rightarrow> ('n \<Rightarrow> bool) \<Rightarrow> ('n \<Rightarrow> assignment \<Rightarrow> bool) \<Rightarrow> bool" where
  "sdd_contract E ok sem \<longleftrightarrow>
     Suc (sdd_manager_var_count E) < 2 ^ 32 \<and>
     condition_keeps_constants E \<and>
     engine_closed E ok \<and>
     engine_canonical ok sem \<and>
     engine_sem E ok sem \<and>
     engine_tests E ok sem \<and>
     engine_support E ok sem"

section \<open>A reference engine\<close>

text \<open>
  Modelled from the spec: an executable engine that satisfies the contract, so that the
  contract is not empty and the wrapper can be run on concrete nodes. A node over \<open>N\<close>
  variables is the complete decision tree of depth \<open>N\<close> of its Boolean function
  (variable \<open>1\<close> at the root, \<open>Branch lo hi\<close> with \<open>lo\<close> for false and \<open>hi\<close> for true), which
  is canonical as the engine's diagrams are.
\<close>

datatype bf = Leaf bool | Branch bf bf

fun const_bf :: "nat \<Rightarrow> bool \<Rightarrow> bf" where
  "const_bf 0 b = Leaf b"
| "const_bf (Suc d) b = Branch (const_bf d b) (const_bf d b)"

fun full :: "nat \<Rightarrow> bf \<Rightarrow> bool" where
  "full 0 (Leaf b) = True"
| "full (Suc d) (Branch lo hi) = (full d lo \<and> full d hi)"
| "full d t = False"

fun eval_bf :: "nat \<Rightarrow> bf \<Rightarrow> assignment \<Rightarrow> bool" where
  "eval_bf k (Leaf b) a = b"
| "eval_bf k (Branch lo hi) a = (if a k then eval_bf (Suc k) hi a else eval_bf (Suc k) lo a)"

fun lit_bf :: "nat \<Rightarrow> nat \<Rightarrow> bool \<Rightarrow> bf" where
  "lit_bf 0 v p = Leaf False"
| "lit_bf (Suc d) v p =
     (if v = 1 then Branch (const_bf d (\<not> p)) (const_bf d p)
      else Branch (lit_bf d (v - 1) p) (lit_bf d (v - 1) p))"

fun neg_bf :: "bf \<Rightarrow> bf" where
  "neg_bf (Leaf b) = Leaf (\<not> b)"
| "neg_bf (Branch lo hi) = Branch (neg_bf lo) (neg_bf hi)"

fun app2_bf :: "(bool \<Rightarrow> bool \<Rightarrow> bool) \<Rightarrow> bf \<Rightarrow> bf \<Rightarrow> bf" where
  "app2_bf f (Leaf x) (Leaf y) = Leaf (f x y)"
| "app2_bf f (Branch lo hi) (Branch lo' hi') = Branch (app2_bf f lo lo') (app2_bf f hi hi')"
| "app2_bf f (Leaf x) (Branch lo hi) = Branch (app2_bf f (Leaf x) lo) (app2_bf f (Leaf x) hi)"
| "app2_bf f (Branch lo hi) (Leaf y) = Branch (app2_bf f lo (Leaf y)) (app2_bf f hi (Leaf y))"

fun cond_bf :: "nat \<Rightarrow> bool \<Rightarrow> bf \<Rightarrow> bf" where
  "cond_bf v p (Leaf b) = Leaf b"
| "cond_bf v p (Branch lo hi) =
     (if v = 1 then (if p then Branch hi hi else Branch lo lo)
      else Branch (cond_bf (v - 1) p lo) (cond_bf (v - 1) p hi))"

definition exists_bf :: "nat \<Rightarrow> bf \<Rightarrow> bf" where
  "exists_bf v t = app2_bf (\<or>) (cond_bf v True t) (cond_bf v False t)"

definition forall_bf :: "nat \<Rightarrow> bf \<Rightarrow> bf" where
  "forall_bf v t = app2_bf (\<and>) (cond_bf v True t) (cond_bf v False t)"

fun deps_bf :: "nat \<Rightarrow> bf \<Rightarrow> bool" where
  "deps_bf v (Leaf b) = False"
| "deps_bf v (Branch lo hi) =
     (if v = 1 then lo \<noteq> hi else deps_bf (v - 1) lo \<or> deps_bf (v - 1) hi)"

fun build_bf :: "nat \<Rightarrow> nat \<Rightarrow> (assignment \<Rightarrow> bool) \<Rightarrow> bf" where
  "build_bf 0 k g = Leaf (g (\<lambda>_. False))"
| "build_bf (Suc d) k g =
     Branch (build_bf d (Suc k) (\<lambda>a. g (a(k := False)))) (build_bf d (Suc k) (\<lambda>a. g (a(k := True))))"

definition ref_engine :: "nat \<Rightarrow> bf engine" where
  "ref_engine N =
     \<lparr> sdd_manager_var_count = N,
       sdd_manager_literal = (\<lambda>l. lit_bf N (sdd_var l) (sdd_pos l)),
       sdd_manager_true = const_bf N True,
       sdd_manager_false = const_bf N False,
       sdd_negate = neg_bf,
       sdd_conjoin = app2_bf (\<and>),
       sdd_disjoin = app2_bf (\<or>),
       sdd_exists = (\<lambda>l. exists_bf (sdd_var l)),
       sdd_exists_multiple =
         (\<lambda>msk. fold (\<lambda>i t. if msk ! i \<noteq> 0 then exists_bf i t else t) [1..<Suc N]),
       sdd_forall = (\<lambda>l. forall_bf (sdd_var l)),
       sdd_condition = (\<lambda>l. cond_bf (sdd_var l) (sdd_pos l)),
       sdd_rename_variables =
         (\<lambda>t m. build_bf N 1 (\<lambda>a. eval_bf 1 t (\<lambda>i. if i < length m then a (sdd_var (m ! i)) else a i))),
       sdd_node_is_true = (\<lambda>t. t = const_bf N True),
       sdd_node_is_false = (\<lambda>t. t = const_bf N False),
       sdd_variables = (\<lambda>t. map (\<lambda>i. if deps_bf i t then 1 else 0) [0..<Suc N]) \<rparr>"

definition ref_sem :: "bf \<Rightarrow> assignment \<Rightarrow> bool" where
  "ref_sem t a = eval_bf 1 t a"

text \<open>
  Two nodes built through the wrapper on the reference engine: \<open>x1 \<or> x2\<close> on a manager
  with two variables, and \<open>(x1 \<and> x3) \<or> (\<not>x1 \<and> x2 \<and> x3)\<close> on a manager with three.
\<close>

definition x1_or_x2 :: bf where
  "x1_or_x2 =
     disjoin (ref_engine 2) (sdd_manager_literal (ref_engine 2) 1) (sdd_manager_literal (ref_engine 2) 2)"

definition x1_x3_or_x2_x3 :: bf where
  "x1_x3_or_x2_x3 =
     disjoin (ref_engine 3)
       (conjoin (ref_engine 3) (sdd_manager_literal (ref_engine 3) 1) (sdd_manager_literal (ref_engine 3) 3))
       (conjoin (ref_engine 3) (sdd_manager_literal (ref_engine 3) (- 1))
          (conjoin (ref_engine 3) (sdd_manager_literal (ref_engine 3) 2) (sdd_manager_literal (ref_engine 3) 3)))"

text \<open>
  Two callbacks for \<open>rename\<close> on the reference engine: one returns its variable and
  leaves the manager alone, the other also adds a variable to the manager.
\<close>

definition keep :: "variable \<Rightarrow> bf engine \<Rightarrow> variable \<times> bf engine" where
  "keep var E = (var, E)"

definition keep_and_add_var :: "variable \<Rightarrow> bf engine \<Rightarrow> variable \<times> bf engine" where
  "keep_and_add_var var E = (var, E\<lparr> sdd_manager_var_count := Suc (sdd_manager_var_count E) \<rparr>)"


section \<open>Reference counting of engine nodes\<close>

text \<open>
  \<^verbatim>\<open>
  node::node(class manager *mgr, SddNode *n)
    : _mgr{mgr}, _node{
      std::shared_ptr<SddNode>{
        sdd_ref(n, mgr->sdd()), [=](SddNode *_n) { sdd_deref(_n, mgr->sdd()); }
      }
    } { }\<close>

  The constructor calls \<^verbatim>\<open>sdd_ref\<close> once and hands the engine node to a new
  \<^verbatim>\<open>shared_ptr\<close>, whose deleter calls \<^verbatim>\<open>sdd_deref\<close>. The copy constructor, the move
  constructor and the destructor of \<^verbatim>\<open>node\<close> are the defaulted ones: they copy, move and
  release the \<^verbatim>\<open>shared_ptr\<close>. The state below holds what these operations touch: the
  engine's reference count of each engine node (engine nodes are numbered), the control
  blocks of the shared pointers (the engine node a block manages and its use count), and
  the handles (\<^verbatim>\<open>node\<close> objects) created so far with the control block each holds; a
  handle that was destroyed or moved from holds none.
\<close>

record rc_state =
  engine_refs :: "nat \<Rightarrow> nat"
  blocks :: "(nat \<times> nat) list"
  handles :: "nat option list"

definition rc_init :: rc_state where
  "rc_init = \<lparr> engine_refs = (\<lambda>x. 0), blocks = [], handles = [] \<rparr>"

text \<open>\<^verbatim>\<open>node{mgr, n}\<close>: \<^verbatim>\<open>sdd_ref\<close>, a new control block with use count 1, a new handle.\<close>

definition node_ctor :: "nat \<Rightarrow> rc_state \<Rightarrow> rc_state" where
  "node_ctor x s =
     s\<lparr> engine_refs := (engine_refs s)(x := engine_refs s x + 1),
        blocks := blocks s @ [(x, 1)],
        handles := handles s @ [Some (length (blocks s))] \<rparr>"

text \<open>\<^verbatim>\<open>node(node const&) = default\<close>: the new handle shares the block; its use count grows.\<close>

definition node_copy :: "nat \<Rightarrow> rc_state \<Rightarrow> rc_state" where
  "node_copy h s =
     (case handles s ! h of
        None \<Rightarrow> s\<lparr> handles := handles s @ [None] \<rparr>
      | Some b \<Rightarrow>
          s\<lparr> blocks := (blocks s)[b := (fst (blocks s ! b), snd (blocks s ! b) + 1)],
             handles := handles s @ [Some b] \<rparr>)"

text \<open>\<^verbatim>\<open>node(node &&) = default\<close>: the new handle takes the block, the source is left empty.\<close>

definition node_move :: "nat \<Rightarrow> rc_state \<Rightarrow> rc_state" where
  "node_move h s = s\<lparr> handles := (handles s)[h := None] @ [handles s ! h] \<rparr>"

text \<open>
  The destructor: the use count of the block drops; the handle that releases the block
  last runs the deleter, \<^verbatim>\<open>sdd_deref\<close>.
\<close>

definition node_dtor :: "nat \<Rightarrow> rc_state \<Rightarrow> rc_state" where
  "node_dtor h s =
     (case handles s ! h of
        None \<Rightarrow> s
      | Some b \<Rightarrow>
          (let x = fst (blocks s ! b); c = snd (blocks s ! b);
               s' = s\<lparr> blocks := (blocks s)[b := (x, c - 1)], handles := (handles s)[h := None] \<rparr>
           in if c = 1 then s'\<lparr> engine_refs := (engine_refs s)(x := engine_refs s x - 1) \<rparr>
              else s'))"

text \<open>
  \<^verbatim>\<open>
  SddNode **elems = sdd_node_elements(sdd());
  size_t nelems = sdd_node_size(sdd());
  for(size_t i = 0; i < nelems; i++)
    result.push_back(element{ node{manager(), elems[2 * i]}, node{manager(), elems[2 * i + 1]} });\<close>

  Each element holds two handles, each made by the constructor above; moving the
  element into the vector moves its handles. The engine's array is a list of pairs.
\<close>

fun elements_handles :: "(nat \<times> nat) list \<Rightarrow> rc_state \<Rightarrow> rc_state" where
  "elements_handles [] s = s"
| "elements_handles ((p, q) # es) s = elements_handles es (node_ctor q (node_ctor p s))"

text \<open>Programs over handles: a step names an existing handle, or creates handles.\<close>

datatype rc_op = Construct nat | Copy nat | Move nat | Destroy nat | Elements "(nat \<times> nat) list"

fun rc_step :: "rc_op \<Rightarrow> rc_state \<Rightarrow> rc_state option" where
  "rc_step (Construct x) s = Some (node_ctor x s)"
| "rc_step (Copy h) s = (if h < length (handles s) then Some (node_copy h s) else None)"
| "rc_step (Move h) s = (if h < length (handles s) then Some (node_move h s) else None)"
| "rc_step (Destroy h) s = (if h < length (handles s) then Some (node_dtor h s) else None)"
| "rc_step (Elements es) s = Some (elements_handles es s)"

fun rc_run :: "rc_op list \<Rightarrow> rc_state \<Rightarrow> rc_state option" where
  "rc_run [] s = Some s"
| "rc_run (c # cs) s = (case rc_step c s of None \<Rightarrow> None | Some s' \<Rightarrow> rc_run cs s')"

text \<open>The live handles that refer to engine node \<open>x\<close>, and the live control blocks for it.\<close>

definition live_handles :: "rc_state \<Rightarrow> nat \<Rightarrow> nat" where
  "live_handles s x =
     length (filter (\<lambda>h. case h of None \<Rightarrow> False | Some b \<Rightarrow> fst (blocks s ! b) = x) (handles s))"

definition live_blocks :: "rc_state \<Rightarrow> nat \<Rightarrow> nat" where
  "live_blocks s x = length (filter (\<lambda>bl. fst bl = x \<and> 0 < snd bl) (blocks s))"

text \<open>
  The bookkeeping of the shared pointers: the use count of every control block is the
  number of handles that hold it, a handle holds only a block that exists, and the
  engine's reference count of a node is the number of live control blocks for it.
\<close>

definition rc_inv :: "rc_state \<Rightarrow> bool" where
  "rc_inv s \<longleftrightarrow>
     (\<forall>b<length (blocks s). snd (blocks s ! b) = count_list (handles s) (Some b)) \<and>
     (\<forall>b. Some b \<in> set (handles s) \<longrightarrow> b < length (blocks s)) \<and>
     (\<forall>x. engine_refs s x = live_blocks s x)"


section \<open>Literals\<close>

lemma sint_neg_long: "sint (l::long) \<noteq> - (2^63) \<Longrightarrow> sint (- l) = - sint l"
proof -
  assume a: "sint l \<noteq> - (2^63)"
  have r: "- (2^63) \<le> sint l \<and> sint l < 2^63"
    using sint_range_size[of l] by (simp add: word_size)
  have "signed_take_bit 63 (- sint l) = - sint l"
    by (rule signed_take_bit_int_eq_self) (use a r in simp_all)
  then show ?thesis by (simp add: sint_word_ariths)
qed

lemma neg_not_positive: "0 <s (l::long) \<Longrightarrow> \<not> 0 <s - l"
  using sint_neg_long[of l] by (simp add: word_sless_alt)

lemma neg_fixed_point: "\<not> 0 <s (l::long) \<Longrightarrow> \<not> 0 <s - l \<Longrightarrow> - l = l"
proof -
  assume a: "\<not> 0 <s l" "\<not> 0 <s - l"
  show ?thesis
  proof (cases "sint l = - (2^63)")
    case True
    have "sint (- l) = signed_take_bit 63 (- sint l)" by (simp add: sint_word_ariths)
    also have "\<dots> = signed_take_bit 63 (2^63 :: int)" using True by simp
    also have "\<dots> = - (2^63)" by (simp add: signed_take_bit_eq_take_bit_minus)
    finally have "sint (- l) = sint l" using True by simp
    then show ?thesis by (simp add: signed_word_eqI)
  next
    case False
    then have "sint (- l) = - sint l" by (rule sint_neg_long)
    with a have "sint l = 0" by (simp add: word_sless_alt)
    then have "l = 0" by (metis sint_0 signed_word_eqI)
    then show ?thesis by simp
  qed
qed

lemma lit_variable_not: "lit_variable (lit_not l) = lit_variable l"
proof (cases "0 <s l")
  case True
  then show ?thesis using neg_not_positive[of l] by (simp add: lit_variable_def lit_not_def)
next
  case False
  show ?thesis
  proof (cases "0 <s - l")
    case True
    with False show ?thesis by (simp add: lit_variable_def lit_not_def)
  next
    case neg: False
    have e: "- l = l" using False neg by (rule neg_fixed_point)
    have "lit_variable (- l) = ucast (- (- l))" using neg by (simp only: lit_variable_def if_False)
    also have "\<dots> = ucast (- l)" by (simp only: e)
    also have "\<dots> = lit_variable l" using False by (simp only: lit_variable_def if_False)
    finally show ?thesis by (simp only: lit_not_def)
  qed
qed


lemma sint_int_long: "- (2^63) \<le> x \<Longrightarrow> x < 2^63 \<Longrightarrow> sint (word_of_int x :: long) = x"
  by (simp add: sint_sbintrunc' signed_take_bit_int_eq_self)

lemma uint_var_bound: "uint (v::unsigned) < 2^32"
  using uint_bounded[of v] by simp

lemma uint_var_range: "- (2^63) < uint (v::unsigned)" "uint (v::unsigned) < 2^63"
proof -
  have "(- (2^63) :: int) < 0" by simp
  also have "0 \<le> uint v" by simp
  finally show "- (2^63) < uint v" .
  have "uint v < 2^32" by (rule uint_var_bound)
  also have "(2^32 :: int) < 2^63" by simp
  finally show "uint v < 2^63" .
qed

lemma sint_lit_of_var: "sint (lit_of_var v) = uint v"
proof -
  have "sint (word_of_int (uint v) :: long) = uint v"
    using uint_var_range[of v] by (intro sint_int_long) (simp_all only: less_imp_le)
  then show ?thesis by (simp only: lit_of_var_def ucast_eq)
qed

lemma sint_var_not: "sint (lit_not (lit_of_var v)) = - uint v"
proof -
  have "sint (lit_of_var v) \<noteq> - (2^63)" unfolding sint_lit_of_var
    using uint_var_range(1)[of v] by simp
  then have "sint (- lit_of_var v) = - sint (lit_of_var v)" by (rule sint_neg_long)
  then show ?thesis by (simp only: lit_not_def sint_lit_of_var)
qed

lemma unat_word_of_nat_var: "i < 2^32 \<Longrightarrow> unat (word_of_nat i :: unsigned) = i"
  by (simp add: unat_of_nat)

lemma sdd_var_lit_of_var: "sdd_var (lit_of_var v) = unat v"
  by (simp add: sdd_var_def sint_lit_of_var)

lemma sdd_var_var_not: "sdd_var (lit_not (lit_of_var v)) = unat v"
  by (simp add: sdd_var_def sint_var_not)

lemma uint_pos: "(0 < uint (v::unsigned)) = (v \<noteq> 0)"
  using uint_ge_0[of v] uint_0_iff[of v] by linarith

lemma sdd_pos_lit_of_var: "sdd_pos (lit_of_var v) = (v \<noteq> 0)"
  by (simp add: sdd_pos_def sint_lit_of_var uint_pos)

lemma sdd_pos_var_not: "\<not> sdd_pos (lit_not (lit_of_var v))"
  by (simp add: sdd_pos_def sint_var_not)

lemma lit_variable_of_var: "lit_variable (lit_of_var v) = v"
proof (cases "v = 0")
  case True
  then show ?thesis by (simp add: lit_variable_def lit_of_var_def)
next
  case False
  then have "0 <s lit_of_var v" by (simp add: word_sless_alt sint_lit_of_var uint_pos)
  then have "lit_variable (lit_of_var v) = ucast (lit_of_var v)" by (simp add: lit_variable_def)
  also have "\<dots> = v" unfolding lit_of_var_def
    by (rule ucast_up_ucast_id) (simp add: is_up)
  finally show ?thesis .
qed

lemma lit_for_variable: "lit_for l v \<Longrightarrow> lit_variable l = v"
  by (auto simp: lit_for_def lit_variable_not lit_variable_of_var)

lemma lit_for_sdd_var: "lit_for l v \<Longrightarrow> sdd_var l = unat v"
  by (auto simp: lit_for_def sdd_var_lit_of_var sdd_var_var_not)

lemma list_all2_lit_for_map: "list_all2 lit_for ls vs \<Longrightarrow> map lit_variable ls = vs"
  by (induction rule: list_all2_induct) (simp_all add: lit_for_variable)


lemma small_literals:
  "sdd_var 1 = 1" "sdd_pos 1" "sdd_var (- 1) = 1" "\<not> sdd_pos (- 1)"
  "sdd_var 2 = 2" "sdd_pos 2" "sdd_var (- 2) = 2" "\<not> sdd_pos (- 2)"
  by (simp_all add: sdd_var_def sdd_pos_def)


text \<open>
  C8. For every literal \<open>l\<close>, negating twice gives \<open>l\<close> back, and negation keeps the
  variable: \<open>!!l == l\<close> and \<open>variable(!l) == variable(l)\<close>. This holds for every 64-bit
  value, \<^verbatim>\<open>0\<close> and \<^verbatim>\<open>LONG_MIN\<close> included.
\<close>

theorem literal_negation:
  "lit_not (lit_not l) = l \<and> lit_variable (lit_not l) = lit_variable l"
  by (simp add: lit_not_def lit_variable_not[unfolded lit_not_def])

section \<open>manager::literal\<close>

lemma lit_variable_4: "unat (lit_variable 4) = 4"
  by (simp add: lit_variable_def word_sless_alt)

text \<open>
  The test of \<open>manager::literal\<close> as the code has it: it throws exactly when the variable
  that \<open>variable()\<close> reads from the literal exceeds \<open>var_count()\<close>, and otherwise passes the
  literal to the engine unchanged.
\<close>

lemma mgr_literal_range:
  "mgr_literal E lit =
     (if var_count E < unat (lit_variable lit) then Inl (InvalidArgument ''literal too large'')
      else Inr (sdd_manager_literal E lit)) \<and>
   (isl (mgr_literal E lit) \<longleftrightarrow> var_count E < unat (lit_variable lit))"
  by (simp add: mgr_literal_def Let_def)

text \<open>
  For a literal of magnitude below \<open>2^32\<close> the variable read by \<open>variable()\<close> is the
  magnitude, so the test is the one on the literal's variable.
\<close>

lemma unat_ucast_small:
  assumes "0 \<le> sint (l::long)" and "sint l < 2 ^ 32"
  shows "unat (ucast l :: unsigned) = nat (sint l)"
proof -
  define x where "x = sint l"
  have x: "0 \<le> x" "x < 2 ^ 32" using assms by (simp_all add: x_def)
  have x63: "- (2 ^ 63) \<le> x" "x < 2 ^ 63"
  proof -
    have "(- (2 ^ 63) :: int) \<le> 0" by simp
    also have "0 \<le> x" by (rule x(1))
    finally show "- (2 ^ 63) \<le> x" .
    have "(2 ^ 32 :: int) < 2 ^ 63" by simp
    with x(2) show "x < 2 ^ 63" by (rule less_trans)
  qed
  have "sint (word_of_int x :: long) = sint l" unfolding x_def[symmetric]
    by (rule sint_int_long[OF x63])
  then have "word_of_int x = l" by (rule signed_word_eqI)
  then have l: "l = word_of_int x" by (rule sym)
  have x64: "x < 2 ^ 64"
  proof -
    have "(2 ^ 32 :: int) < 2 ^ 64" by simp
    with x(2) show ?thesis by (rule less_trans)
  qed
  have ul: "uint (word_of_int x :: long) = x"
    using x(1) x64 by (simp add: uint_word_of_int take_bit_eq_mod)
  have "uint (word_of_int x :: unsigned) = x"
    using x by (simp add: uint_word_of_int take_bit_eq_mod)
  then have "unat (word_of_int x :: unsigned) = nat x" by (simp add: unat_eq_nat_uint)
  moreover have "(ucast l :: unsigned) = word_of_int x"
    unfolding l by (simp only: ucast_eq ul)
  ultimately show ?thesis by (simp only: x_def)
qed

lemma lit_variable_magnitude:
  assumes "- (2 ^ 32) < sint (lit::long)" and "sint lit < 2 ^ 32"
  shows "unat (lit_variable lit) = sdd_var lit"
proof (cases "0 <s lit")
  case True
  then have p: "0 < sint lit" by (simp add: word_sless_alt)
  then have "unat (ucast lit :: unsigned) = nat (sint lit)"
    using assms(2) by (intro unat_ucast_small) simp_all
  then show ?thesis using True p by (simp add: lit_variable_def sdd_var_def)
next
  case False
  then have np: "sint lit \<le> 0" by (simp add: word_sless_alt)
  have "sint lit \<noteq> - (2 ^ 63)" using assms(1) by simp
  then have n: "sint (- lit) = - sint lit" by (rule sint_neg_long)
  have "unat (ucast (- lit) :: unsigned) = nat (sint (- lit))"
    using assms(1) np unfolding n by (intro unat_ucast_small[of "- lit", unfolded n]) simp_all
  then show ?thesis using False np n by (simp add: lit_variable_def sdd_var_def)
qed

lemma mgr_literal_in_range:
  assumes "- (2 ^ 32) < sint (lit::long)" and "sint lit < 2 ^ 32"
  shows "isl (mgr_literal E lit) \<longleftrightarrow> var_count E < sdd_var lit"
  by (simp add: mgr_literal_def Let_def lit_variable_magnitude[OF assms])

text \<open>
  C5. \<open>manager.literal(lit)\<close> is to throw exactly when the variable of \<open>lit\<close> exceeds
  \<open>var_count()\<close>, without truncating or wrapping. On a manager with 3 variables \<open>literal(4)\<close>
  throws (\<^verbatim>\<open>std::invalid_argument\<close>, "literal too large"), but the literal \<open>4294967297\<close>
  \<open>= 2^32 + 1\<close>, of magnitude \<open>4294967297 > 3\<close>, does not: \<open>variable()\<close> keeps the low 32 bits
  of the magnitude and reads variable 1, the test passes, and the literal reaches the
  engine as it is.
\<close>

theorem mgr_literal_wide:
  "var_count (ref_engine 3) = 3 \<and> sdd_var 4294967297 = 4294967297 \<and>
   lit_variable 4294967297 = 1 \<and>
   mgr_literal (ref_engine 3) 4294967297 = Inr (sdd_manager_literal (ref_engine 3) 4294967297) \<and>
   mgr_literal (ref_engine 3) 4 = Inl (InvalidArgument ''literal too large'')"
proof -
  have v: "lit_variable 4294967297 = 1" by (simp add: lit_variable_def word_sless_alt)
  have s: "sdd_var 4294967297 = 4294967297" by (simp add: sdd_var_def)
  show ?thesis
    by (simp add: v s mgr_literal_def Let_def var_count_def ref_engine_def lit_variable_4)
qed

section \<open>Conditioning on a list of literals\<close>

lemma foldl_condition_const:
  "condition_keeps_constants E \<Longrightarrow> is_valid E n \<or> is_unsat E n \<Longrightarrow> foldl (condition E) n lits = n"
  by (induction lits) (auto simp: condition_keeps_constants_def condition_def is_valid_def is_unsat_def)

lemma condition_lits_foldl:
  "condition_keeps_constants E \<Longrightarrow> condition_lits E n lits = foldl (condition E) n lits"
proof (induction lits arbitrary: n)
  case Nil
  show ?case by simp
next
  case (Cons lit lits)
  show ?case
  proof (cases "is_valid E (condition E n lit) \<or> is_unsat E (condition E n lit)")
    case True
    then show ?thesis
      using foldl_condition_const[OF Cons.prems True, of lits] by (simp add: Let_def)
  next
    case False
    then show ?thesis using Cons.IH[OF Cons.prems] by (simp add: Let_def)
  qed
qed

text \<open>
  C2. On an engine for which conditioning a constant node is a no-op, \<open>condition(n, lits)\<close>
  with its short-circuit (it stops as soon as the intermediate node is valid or unsat)
  returns the same node as the plain left-to-right fold of single-literal conditioning
  over all of \<open>lits\<close>, for every node and every list of literals.
\<close>

theorem condition_short_circuit:
  "condition_keeps_constants E \<Longrightarrow> condition_lits E n lits = foldl (condition E) n lits"
  by (rule condition_lits_foldl)


section \<open>The reference engine satisfies the contract\<close>

lemma full_Leaf: "full d (Leaf b) \<longleftrightarrow> d = 0"
  by (cases d) auto

lemma full_Branch: "full d (Branch lo hi) \<longleftrightarrow> (\<exists>d'. d = Suc d' \<and> full d' lo \<and> full d' hi)"
  by (cases d) auto

lemma full_const: "full d (const_bf d b)"
  by (induction d) auto

lemma eval_const: "eval_bf k (const_bf d b) a = b"
  by (induction d arbitrary: k) auto

lemma eval_local:
  "full d t \<Longrightarrow> (\<forall>j. k \<le> j \<and> j < k + d \<longrightarrow> a j = b j) \<Longrightarrow> eval_bf k t a = eval_bf k t b"
proof (induction t arbitrary: d k)
  case (Leaf x)
  show ?case by simp
next
  case (Branch lo hi)
  from Branch.prems(1) obtain d' where d: "d = Suc d'" "full d' lo" "full d' hi"
    by (auto simp: full_Branch)
  have ak: "a k = b k" using Branch.prems(2) d(1) by simp
  have rest: "\<forall>j. Suc k \<le> j \<and> j < Suc k + d' \<longrightarrow> a j = b j" using Branch.prems(2) d(1) by simp
  show ?case
    using Branch.IH(1)[OF d(2) rest] Branch.IH(2)[OF d(3) rest] ak by simp
qed

lemma eval_upd_below: "full d t \<Longrightarrow> j < k \<Longrightarrow> eval_bf k t (a(j := x)) = eval_bf k t a"
  by (rule eval_local) auto

lemma full_lit: "full d (lit_bf d v p)"
  by (induction d arbitrary: v) (auto simp: full_const)

lemma eval_lit: "1 \<le> v \<Longrightarrow> v \<le> d \<Longrightarrow> eval_bf k (lit_bf d v p) a = (a (k + v - 1) = p)"
proof (induction d arbitrary: v k)
  case 0
  then show ?case by simp
next
  case (Suc d)
  show ?case
  proof (cases "v = 1")
    case True
    then show ?thesis by (auto simp: eval_const)
  next
    case False
    then have "1 \<le> v - 1" "v - 1 \<le> d" using Suc.prems by auto
    from Suc.IH[OF this, of "Suc k"] False Suc.prems show ?thesis by auto
  qed
qed

lemma full_neg: "full d t \<Longrightarrow> full d (neg_bf t)"
  by (induction t arbitrary: d) (auto simp: full_Leaf full_Branch)

lemma eval_neg: "eval_bf k (neg_bf t) a = (\<not> eval_bf k t a)"
  by (induction t arbitrary: k) auto

lemma full_app2: "full d s \<Longrightarrow> full d t \<Longrightarrow> full d (app2_bf f s t)"
  by (induction f s t arbitrary: d rule: app2_bf.induct) (auto simp: full_Leaf full_Branch)

lemma eval_app2:
  "full d s \<Longrightarrow> full d t \<Longrightarrow> eval_bf k (app2_bf f s t) a = f (eval_bf k s a) (eval_bf k t a)"
  by (induction f s t arbitrary: d k rule: app2_bf.induct) (auto simp: full_Leaf full_Branch)

lemma full_cond: "full d t \<Longrightarrow> full d (cond_bf v p t)"
  by (induction t arbitrary: d v) (auto simp: full_Leaf full_Branch)

lemma cond_const: "cond_bf v p (const_bf d b) = const_bf d b"
  by (induction d arbitrary: v) auto

lemma eval_cond:
  "full d t \<Longrightarrow> 1 \<le> v \<Longrightarrow> v \<le> d \<Longrightarrow> eval_bf k (cond_bf v p t) a = eval_bf k t (a(k + v - 1 := p))"
proof (induction t arbitrary: d v k)
  case (Leaf x)
  show ?case by simp
next
  case (Branch lo hi)
  from Branch.prems(1) obtain d' where d: "d = Suc d'" "full d' lo" "full d' hi"
    by (auto simp: full_Branch)
  show ?case
  proof (cases "v = 1")
    case True
    have k1: "k + v - 1 = k" using True by simp
    have f: "full d' (if p then hi else lo)" using d by simp
    have "eval_bf k (cond_bf v p (Branch lo hi)) a = eval_bf (Suc k) (if p then hi else lo) a"
      using True by simp
    also have "\<dots> = eval_bf (Suc k) (if p then hi else lo) (a(k := p))"
      by (rule eval_upd_below[OF f, symmetric]) simp
    also have "\<dots> = eval_bf k (Branch lo hi) (a(k := p))"
      by (simp only: eval_bf.simps fun_upd_same if_distrib[of "\<lambda>t. eval_bf (Suc k) t (a(k := p))"])
    finally show ?thesis by (simp only: k1)
  next
    case False
    then have v: "1 \<le> v - 1" "v - 1 \<le> d'" using Branch.prems d(1) by auto
    have e: "Suc k + (v - 1) - 1 = k + v - 1" using v by simp
    have ne: "k + v - 1 \<noteq> k" using False Branch.prems by simp
    have lo: "eval_bf (Suc k) (cond_bf (v - 1) p lo) a = eval_bf (Suc k) lo (a(k + v - 1 := p))"
      using Branch.IH(1)[OF d(2) v, of "Suc k"] by (simp only: e)
    have hi: "eval_bf (Suc k) (cond_bf (v - 1) p hi) a = eval_bf (Suc k) hi (a(k + v - 1 := p))"
      using Branch.IH(2)[OF d(3) v, of "Suc k"] by (simp only: e)
    have c: "cond_bf v p (Branch lo hi) = Branch (cond_bf (v - 1) p lo) (cond_bf (v - 1) p hi)"
      using False by simp
    have ak: "(a(k + v - 1 := p)) k = a k" using ne by simp
    show ?thesis by (simp only: c eval_bf.simps lo hi ak)
  qed
qed

lemma canonical_bf:
  "full d s \<Longrightarrow> full d t \<Longrightarrow> (\<forall>a. eval_bf k s a = eval_bf k t a) \<Longrightarrow> s = t"
proof (induction s arbitrary: d t k)
  case (Leaf x)
  then obtain y where "t = Leaf y" by (cases t) (auto simp: full_Leaf)
  with Leaf show ?case by simp
next
  case (Branch lo hi)
  from Branch.prems(1) obtain d' where d: "d = Suc d'" "full d' lo" "full d' hi"
    by (auto simp: full_Branch)
  from Branch.prems(2) d(1) obtain lo' hi' where t: "t = Branch lo' hi'" "full d' lo'" "full d' hi'"
    by (cases t) auto
  have "\<forall>a. eval_bf (Suc k) lo a = eval_bf (Suc k) lo' a"
  proof
    fix a
    have "eval_bf k (Branch lo hi) (a(k := False)) = eval_bf k t (a(k := False))"
      using Branch.prems(3) by blast
    then show "eval_bf (Suc k) lo a = eval_bf (Suc k) lo' a"
      by (simp add: t(1) eval_upd_below[OF d(2)] eval_upd_below[OF t(2)])
  qed
  then have 1: "lo = lo'" using Branch.IH(1)[OF d(2) t(2)] by blast
  have "\<forall>a. eval_bf (Suc k) hi a = eval_bf (Suc k) hi' a"
  proof
    fix a
    have "eval_bf k (Branch lo hi) (a(k := True)) = eval_bf k t (a(k := True))"
      using Branch.prems(3) by blast
    then show "eval_bf (Suc k) hi a = eval_bf (Suc k) hi' a"
      by (simp add: t(1) eval_upd_below[OF d(3)] eval_upd_below[OF t(3)])
  qed
  then have 2: "hi = hi'" using Branch.IH(2)[OF d(3) t(3)] by blast
  show ?case using 1 2 t(1) by simp
qed

lemma deps_bf_0: "\<not> deps_bf 0 t"
  by (induction t) auto

lemma deps_bf_range: "full d t \<Longrightarrow> deps_bf v t \<Longrightarrow> 1 \<le> v \<and> v \<le> d"
proof (induction t arbitrary: d v)
  case (Leaf x)
  then show ?case by simp
next
  case (Branch lo hi)
  from Branch.prems(1) obtain d' where d: "d = Suc d'" "full d' lo" "full d' hi"
    by (auto simp: full_Branch)
  show ?case
  proof (cases "v = 1")
    case True
    then show ?thesis using d(1) by simp
  next
    case False
    then have "deps_bf (v - 1) lo \<or> deps_bf (v - 1) hi" using Branch.prems(2) by simp
    then have "1 \<le> v - 1 \<and> v - 1 \<le> d'"
      using Branch.IH(1)[OF d(2)] Branch.IH(2)[OF d(3)] by blast
    then show ?thesis using d(1) by arith
  qed
qed

lemma deps_support:
  "full d t \<Longrightarrow> (\<forall>v. 1 \<le> v \<and> v \<le> d \<and> deps_bf v t \<longrightarrow> a (k + v - 1) = b (k + v - 1))
     \<Longrightarrow> eval_bf k t a = eval_bf k t b"
proof (induction t arbitrary: d k)
  case (Leaf x)
  show ?case by simp
next
  case (Branch lo hi)
  from Branch.prems(1) obtain d' where d: "d = Suc d'" "full d' lo" "full d' hi"
    by (auto simp: full_Branch)
  have sub: "\<forall>v. 1 \<le> v \<and> v \<le> d' \<and> (deps_bf v lo \<or> deps_bf v hi) \<longrightarrow> a (Suc k + v - 1) = b (Suc k + v - 1)"
  proof (intro allI impI)
    fix v assume v: "1 \<le> v \<and> v \<le> d' \<and> (deps_bf v lo \<or> deps_bf v hi)"
    then have "1 \<le> Suc v \<and> Suc v \<le> d \<and> deps_bf (Suc v) (Branch lo hi)" using d(1) by simp
    then have "a (k + Suc v - 1) = b (k + Suc v - 1)" using Branch.prems(2) by blast
    then show "a (Suc k + v - 1) = b (Suc k + v - 1)" by simp
  qed
  have lo: "eval_bf (Suc k) lo a = eval_bf (Suc k) lo b"
    by (rule Branch.IH(1)[OF d(2)]) (use sub in blast)
  have hi: "eval_bf (Suc k) hi a = eval_bf (Suc k) hi b"
    by (rule Branch.IH(2)[OF d(3)]) (use sub in blast)
  show ?case
  proof (cases "lo = hi")
    case True
    then show ?thesis using lo by simp
  next
    case False
    then have "1 \<le> (1::nat) \<and> 1 \<le> d \<and> deps_bf 1 (Branch lo hi)" using d(1) by simp
    then have "a (k + 1 - 1) = b (k + 1 - 1)" using Branch.prems(2) by blast
    then have "a k = b k" by simp
    then show ?thesis using lo hi by simp
  qed
qed

lemma deps_essential:
  "full d t \<Longrightarrow> deps_bf v t \<Longrightarrow>
     \<exists>a. eval_bf k t (a(k + v - 1 := True)) \<noteq> eval_bf k t (a(k + v - 1 := False))"
proof (induction t arbitrary: d v k)
  case (Leaf x)
  then show ?case by simp
next
  case (Branch lo hi)
  from Branch.prems(1) obtain d' where d: "d = Suc d'" "full d' lo" "full d' hi"
    by (auto simp: full_Branch)
  show ?case
  proof (cases "v = 1")
    case True
    then have "lo \<noteq> hi" using Branch.prems(2) by simp
    then obtain a where a: "eval_bf (Suc k) lo a \<noteq> eval_bf (Suc k) hi a"
      using canonical_bf[OF d(2) d(3), of "Suc k"] by blast
    have k1: "k + v - 1 = k" using True by simp
    have t: "eval_bf k (Branch lo hi) (a(k := True)) = eval_bf (Suc k) hi a"
      using eval_upd_below[OF d(3), of k "Suc k" a True] by (simp only: eval_bf.simps fun_upd_same if_True)
    have f: "eval_bf k (Branch lo hi) (a(k := False)) = eval_bf (Suc k) lo a"
      using eval_upd_below[OF d(2), of k "Suc k" a False] by (simp only: eval_bf.simps fun_upd_same if_False)
    show ?thesis unfolding k1 using a t f by blast
  next
    case False
    have v0: "v \<noteq> 0" using Branch.prems(2) deps_bf_0[of "Branch lo hi"] by (cases "v = 0") simp_all
    have e: "Suc k + (v - 1) - 1 = k + v - 1" using v0 False by simp
    have ne: "k + v - 1 \<noteq> k" using v0 False by simp
    from False Branch.prems(2) have "deps_bf (v - 1) lo \<or> deps_bf (v - 1) hi" by simp
    then show ?thesis
    proof
      assume "deps_bf (v - 1) lo"
      from Branch.IH(1)[OF d(2) this, of "Suc k"] obtain a where
        a: "eval_bf (Suc k) lo (a(k + v - 1 := True)) \<noteq> eval_bf (Suc k) lo (a(k + v - 1 := False))"
        unfolding e by blast
      have r: "\<And>x. eval_bf k (Branch lo hi) ((a(k := False))(k + v - 1 := x)) = eval_bf (Suc k) lo (a(k + v - 1 := x))"
      proof -
        fix x
        have tw: "(a(k := False))(k + v - 1 := x) = (a(k + v - 1 := x))(k := False)"
          using ne by (simp add: fun_upd_twist)
        show "eval_bf k (Branch lo hi) ((a(k := False))(k + v - 1 := x)) = eval_bf (Suc k) lo (a(k + v - 1 := x))"
          unfolding tw using eval_upd_below[OF d(2), of k "Suc k" "a(k + v - 1 := x)" False]
          by (simp only: eval_bf.simps fun_upd_same if_False)
      qed
      show ?thesis using a r by blast
    next
      assume "deps_bf (v - 1) hi"
      from Branch.IH(2)[OF d(3) this, of "Suc k"] obtain a where
        a: "eval_bf (Suc k) hi (a(k + v - 1 := True)) \<noteq> eval_bf (Suc k) hi (a(k + v - 1 := False))"
        unfolding e by blast
      have r: "\<And>x. eval_bf k (Branch lo hi) ((a(k := True))(k + v - 1 := x)) = eval_bf (Suc k) hi (a(k + v - 1 := x))"
      proof -
        fix x
        have tw: "(a(k := True))(k + v - 1 := x) = (a(k + v - 1 := x))(k := True)"
          using ne by (simp add: fun_upd_twist)
        show "eval_bf k (Branch lo hi) ((a(k := True))(k + v - 1 := x)) = eval_bf (Suc k) hi (a(k + v - 1 := x))"
          unfolding tw using eval_upd_below[OF d(3), of k "Suc k" "a(k + v - 1 := x)" True]
          by (simp only: eval_bf.simps fun_upd_same if_True)
      qed
      show ?thesis using a r by blast
    qed
  qed
qed

lemma full_exists: "full d t \<Longrightarrow> full d (exists_bf v t)"
  by (simp add: exists_bf_def full_app2 full_cond)

lemma full_forall: "full d t \<Longrightarrow> full d (forall_bf v t)"
  by (simp add: forall_bf_def full_app2 full_cond)

lemma sem_const: "ref_sem (const_bf d b) a = b"
  by (simp add: ref_sem_def eval_const)

lemma sem_lit: "1 \<le> v \<Longrightarrow> v \<le> d \<Longrightarrow> ref_sem (lit_bf d v p) a = (a v = p)"
  using eval_lit[of v d 1 p a] by (simp add: ref_sem_def)

lemma sem_neg: "ref_sem (neg_bf t) a = (\<not> ref_sem t a)"
  by (simp add: ref_sem_def eval_neg)

lemma sem_app2: "full d s \<Longrightarrow> full d t \<Longrightarrow> ref_sem (app2_bf f s t) a = f (ref_sem s a) (ref_sem t a)"
  by (simp add: ref_sem_def eval_app2)

lemma sem_cond: "full d t \<Longrightarrow> 1 \<le> v \<Longrightarrow> v \<le> d \<Longrightarrow> ref_sem (cond_bf v p t) a = ref_sem t (a(v := p))"
proof -
  assume a: "full d t" "1 \<le> v" "v \<le> d"
  have "1 + v - 1 = v" by simp
  then show ?thesis using eval_cond[OF a, of 1 p a] by (simp only: ref_sem_def)
qed

lemma sem_exists:
  "full d t \<Longrightarrow> 1 \<le> v \<Longrightarrow> v \<le> d \<Longrightarrow>
     ref_sem (exists_bf v t) a = (ref_sem t (a(v := True)) \<or> ref_sem t (a(v := False)))"
  by (simp only: exists_bf_def sem_app2[OF full_cond full_cond] sem_cond)

lemma sem_forall:
  "full d t \<Longrightarrow> 1 \<le> v \<Longrightarrow> v \<le> d \<Longrightarrow>
     ref_sem (forall_bf v t) a = (ref_sem t (a(v := True)) \<and> ref_sem t (a(v := False)))"
  by (simp only: forall_bf_def sem_app2[OF full_cond full_cond] sem_cond)

lemma sem_canonical: "full d s \<Longrightarrow> full d t \<Longrightarrow> (\<forall>a. ref_sem s a = ref_sem t a) \<Longrightarrow> s = t"
  unfolding ref_sem_def by (rule canonical_bf)

lemma sem_support:
  "full d t \<Longrightarrow> (\<forall>v. 1 \<le> v \<and> v \<le> d \<and> deps_bf v t \<longrightarrow> a v = b v) \<Longrightarrow> ref_sem t a = ref_sem t b"
  unfolding ref_sem_def by (rule deps_support[where d = d]) simp_all

lemma sem_essential:
  "full d t \<Longrightarrow> deps_bf v t \<Longrightarrow> \<exists>a. ref_sem t (a(v := True)) \<noteq> ref_sem t (a(v := False))"
proof -
  assume a: "full d t" "deps_bf v t"
  have v: "1 \<le> v" using deps_bf_range[OF a] by simp
  then have "1 + v - 1 = v" by simp
  then show ?thesis using deps_essential[OF a, of 1] by (simp only: ref_sem_def)
qed

lemma full_exists_fold:
  "full d t \<Longrightarrow> full d (fold (\<lambda>i t. if msk ! i \<noteq> (0::int) then exists_bf i t else t) L t)"
  by (induction L arbitrary: t) (simp_all add: full_exists)

lemma sem_exists_fold:
  "full d t \<Longrightarrow> set L \<subseteq> {1..d} \<Longrightarrow>
     ref_sem (fold (\<lambda>i t. if msk ! i \<noteq> (0::int) then exists_bf i t else t) L t) a =
       (\<exists>b. (\<forall>i. (i \<in> set L \<and> msk ! i \<noteq> 0) \<or> b i = a i) \<and> ref_sem t b)"
proof (induction L arbitrary: t)
  case Nil
  have "\<And>b. (\<forall>i. b i = a i) \<longleftrightarrow> b = a" by auto
  then show ?case by simp
next
  case (Cons x L)
  let ?f = "\<lambda>i t. if msk ! i \<noteq> (0::int) then exists_bf i t else t"
  have x: "1 \<le> x" "x \<le> d" and L: "set L \<subseteq> {1..d}" using Cons.prems(2) by auto
  have ft: "full d (?f x t)" using Cons.prems(1) by (simp add: full_exists)
  have IH: "ref_sem (fold ?f L (?f x t)) a =
       (\<exists>b. (\<forall>i. (i \<in> set L \<and> msk ! i \<noteq> 0) \<or> b i = a i) \<and> ref_sem (?f x t) b)"
    by (rule Cons.IH[OF ft L])
  show ?case
  proof (cases "msk ! x \<noteq> 0")
    case False
    have "\<And>i. (i \<in> set (x # L) \<and> msk ! i \<noteq> 0) = (i \<in> set L \<and> msk ! i \<noteq> 0)"
      using False by auto
    then show ?thesis using IH False by simp
  next
    case True
    have ex: "\<And>b. ref_sem (?f x t) b = (ref_sem t (b(x := True)) \<or> ref_sem t (b(x := False)))"
      using True sem_exists[OF Cons.prems(1) x] by simp
    have "(\<exists>b. (\<forall>i. (i \<in> set L \<and> msk ! i \<noteq> 0) \<or> b i = a i) \<and> ref_sem (?f x t) b) =
          (\<exists>b. (\<forall>i. (i \<in> set (x # L) \<and> msk ! i \<noteq> 0) \<or> b i = a i) \<and> ref_sem t b)"
    proof
      assume "\<exists>b. (\<forall>i. (i \<in> set L \<and> msk ! i \<noteq> 0) \<or> b i = a i) \<and> ref_sem (?f x t) b"
      then obtain b where b: "\<forall>i. (i \<in> set L \<and> msk ! i \<noteq> 0) \<or> b i = a i" "ref_sem (?f x t) b"
        by blast
      from b(2) obtain c where c: "ref_sem t (b(x := c))" unfolding ex by blast
      have "\<forall>i. (i \<in> set (x # L) \<and> msk ! i \<noteq> 0) \<or> (b(x := c)) i = a i"
        using b(1) True by auto
      with c show "\<exists>b. (\<forall>i. (i \<in> set (x # L) \<and> msk ! i \<noteq> 0) \<or> b i = a i) \<and> ref_sem t b"
        by blast
    next
      assume "\<exists>b. (\<forall>i. (i \<in> set (x # L) \<and> msk ! i \<noteq> 0) \<or> b i = a i) \<and> ref_sem t b"
      then obtain b where b: "\<forall>i. (i \<in> set (x # L) \<and> msk ! i \<noteq> 0) \<or> b i = a i" "ref_sem t b"
        by blast
      define b' where "b' = b(x := a x)"
      have 1: "\<forall>i. (i \<in> set L \<and> msk ! i \<noteq> 0) \<or> b' i = a i"
        using b(1) by (auto simp: b'_def)
      have "b'(x := b x) = b" by (simp add: b'_def)
      then have "ref_sem t (b'(x := b x))" using b(2) by simp
      then have "ref_sem t (b'(x := True)) \<or> ref_sem t (b'(x := False))"
        by (cases "b x") simp_all
      then have "ref_sem (?f x t) b'" unfolding ex .
      with 1 show "\<exists>b. (\<forall>i. (i \<in> set L \<and> msk ! i \<noteq> 0) \<or> b i = a i) \<and> ref_sem (?f x t) b"
        by blast
    qed
    then show ?thesis using IH by simp
  qed
qed

lemma ref_keeps_constants: "condition_keeps_constants (ref_engine N)"
  by (auto simp: condition_keeps_constants_def ref_engine_def cond_const)

lemma ref_closed: "engine_closed (ref_engine N) (full N)"
  by (simp add: engine_closed_def ref_engine_def full_const full_lit full_neg full_app2 full_cond
      full_exists full_forall full_exists_fold)

lemma ref_canonical: "engine_canonical (full N) ref_sem"
  unfolding engine_canonical_def using sem_canonical by blast

lemma ref_sem_exists_multiple:
  fixes msk :: "int list"
  assumes "full N n" and "length msk = Suc N"
  shows "ref_sem (sdd_exists_multiple (ref_engine N) msk n) a =
          (\<exists>b. (\<forall>i. (1 \<le> i \<and> i \<le> sdd_manager_var_count (ref_engine N) \<and> msk ! i \<noteq> 0) \<or> b i = a i) \<and> ref_sem n b)"
proof -
  have s: "set [1..<Suc N] \<subseteq> {1..N}" by auto
  have m: "\<And>i. (i \<in> set [1..<Suc N] \<and> msk ! i \<noteq> 0) = (1 \<le> i \<and> i \<le> N \<and> msk ! i \<noteq> 0)" by auto
  show ?thesis
    using sem_exists_fold[OF assms(1) s, of msk a] by (simp only: m) (simp add: ref_engine_def)
qed

lemma ref_sem_ok: "engine_sem (ref_engine N) (full N) ref_sem"
  unfolding engine_sem_def
proof (intro conjI allI impI)
  fix msk :: "int list" and n and a :: assignment
  assume "full N n \<and> length msk = Suc (sdd_manager_var_count (ref_engine N))"
  then have "full N n" "length msk = Suc N" by (simp_all add: ref_engine_def)
  then show "ref_sem (sdd_exists_multiple (ref_engine N) msk n) a =
          (\<exists>b. (\<forall>i. (1 \<le> i \<and> i \<le> sdd_manager_var_count (ref_engine N) \<and> msk ! i \<noteq> 0) \<or> b i = a i) \<and> ref_sem n b)"
    by (rule ref_sem_exists_multiple)
qed (auto simp: ref_engine_def sdd_lit_ok_def sem_const sem_lit sem_neg sem_app2 sem_cond sem_exists sem_forall)

lemma ref_tests: "engine_tests (ref_engine N) (full N) ref_sem"
proof -
  have c: "(n = const_bf N b) = (\<forall>a. ref_sem n a = b)" if f: "full N n" for n b
  proof
    assume "n = const_bf N b"
    then show "\<forall>a. ref_sem n a = b" by (simp add: sem_const)
  next
    assume "\<forall>a. ref_sem n a = b"
    then have "\<forall>a. ref_sem n a = ref_sem (const_bf N b) a" by (simp add: sem_const)
    then show "n = const_bf N b" using sem_canonical[OF f full_const] by blast
  qed
  show ?thesis
    using c[of _ True] c[of _ False] by (simp add: engine_tests_def ref_engine_def)
qed

lemma ref_variables_nth:
  "i \<le> N \<Longrightarrow> sdd_variables (ref_engine N) n ! i = (if deps_bf i n then 1 else 0)"
proof -
  assume i: "i \<le> N"
  then have l: "i < length [0..<Suc N]" by simp
  have u: "[0..<Suc N] ! i = i" using i by (metis add_0 less_Suc_eq_le nth_upt)
  show ?thesis
    by (simp only: ref_engine_def engine.simps nth_map[OF l] u)
qed

lemma ref_support_of: "support_of (ref_engine N) n = {i. 1 \<le> i \<and> i \<le> N \<and> deps_bf i n}"
proof -
  have vc: "sdd_manager_var_count (ref_engine N) = N" by (simp add: ref_engine_def)
  show ?thesis unfolding support_of_def vc by (auto simp: ref_variables_nth split: if_splits)
qed

lemma ref_support: "engine_support (ref_engine N) (full N) ref_sem"
  unfolding engine_support_def
proof (intro allI impI conjI ballI)
  fix n assume f: "full N n"
  show "length (sdd_variables (ref_engine N) n) = Suc (sdd_manager_var_count (ref_engine N))"
    by (simp add: ref_engine_def)
  show "depends_only_on (ref_sem n) (support_of (ref_engine N) n)"
    unfolding depends_only_on_def ref_support_of
  proof (intro allI impI)
    fix a b :: assignment
    assume "\<forall>v\<in>{i. 1 \<le> i \<and> i \<le> N \<and> deps_bf i n}. a v = b v"
    then have "\<forall>v. 1 \<le> v \<and> v \<le> N \<and> deps_bf v n \<longrightarrow> a v = b v" by blast
    then show "ref_sem n a = ref_sem n b" by (rule sem_support[OF f])
  qed
  fix i assume "i \<in> support_of (ref_engine N) n"
  then have "deps_bf i n" by (simp add: ref_support_of)
  then show "depends_on (ref_sem n) i" unfolding depends_on_def by (rule sem_essential[OF f])
qed

lemma ref_contract: "Suc N < 2 ^ 32 \<Longrightarrow> sdd_contract (ref_engine N) (full N) ref_sem"
  unfolding sdd_contract_def
  using ref_keeps_constants ref_closed ref_canonical ref_sem_ok ref_tests ref_support
  by (simp add: ref_engine_def)

section \<open>Consequences of the contract\<close>

lemma contract_bound: "sdd_contract E ok sem \<Longrightarrow> Suc (var_count E) < 2 ^ 32"
  by (simp add: sdd_contract_def var_count_def)


lemma contract_ok_condition:
  "sdd_contract E ok sem \<Longrightarrow> sdd_lit_ok E l \<Longrightarrow> ok n \<Longrightarrow> ok (condition E n l)"
  by (simp add: sdd_contract_def engine_closed_def condition_def)

lemma contract_sem_condition:
  "sdd_contract E ok sem \<Longrightarrow> sdd_lit_ok E l \<Longrightarrow> ok n \<Longrightarrow>
     sem (condition E n l) a = sem n (a(sdd_var l := sdd_pos l))"
  by (simp add: sdd_contract_def engine_sem_def condition_def)

lemma contract_is_valid: "sdd_contract E ok sem \<Longrightarrow> ok n \<Longrightarrow> is_valid E n = (\<forall>a. sem n a)"
  by (simp add: sdd_contract_def engine_tests_def is_valid_def)

lemma contract_is_unsat: "sdd_contract E ok sem \<Longrightarrow> ok n \<Longrightarrow> is_unsat E n = (\<forall>a. \<not> sem n a)"
  by (simp add: sdd_contract_def engine_tests_def is_unsat_def)

lemma contract_support:
  "sdd_contract E ok sem \<Longrightarrow> ok n \<Longrightarrow> depends_only_on (sem n) (support_of E n)"
  by (simp add: sdd_contract_def engine_support_def)

lemma contract_essential:
  "sdd_contract E ok sem \<Longrightarrow> ok n \<Longrightarrow> i \<in> support_of E n \<Longrightarrow> depends_on (sem n) i"
  by (simp add: sdd_contract_def engine_support_def)

lemma contract_canonical:
  "sdd_contract E ok sem \<Longrightarrow> ok n \<Longrightarrow> ok m \<Longrightarrow> (\<forall>a. sem n a = sem m a) \<Longrightarrow> n = m"
  unfolding sdd_contract_def engine_canonical_def by blast

text \<open>The variables of a node, read as numbers, are its support in ascending order.\<close>

lemma variables_unat:
  assumes "Suc (var_count E) < 2 ^ 32"
  shows "map unat (variables E n) = filter (\<lambda>i. sdd_variables E n ! i \<noteq> 0) [1..<Suc (var_count E)]"
proof -
  define L where "L = filter (\<lambda>i. sdd_variables E n ! i \<noteq> 0) [1..<Suc (var_count E)]"
  have "unat (word_of_nat i :: unsigned) = i" if "i \<in> set L" for i
  proof -
    from that have "i < Suc (var_count E)" by (simp add: L_def del: upt_Suc)
    then have "i < 2 ^ 32" using assms by simp
    then show ?thesis by (rule unat_word_of_nat_var)
  qed
  then have "map (\<lambda>i. unat (word_of_nat i :: unsigned)) L = L" by (rule map_idI)
  moreover have "map unat (variables E n) = map (\<lambda>i. unat (word_of_nat i :: unsigned)) L"
    by (simp only: variables_def Let_def L_def map_map o_def)
  ultimately show ?thesis by (simp only: L_def)
qed

lemma variables_support:
  "Suc (var_count E) < 2 ^ 32 \<Longrightarrow> unat ` set (variables E n) = support_of E n"
proof -
  assume a: "Suc (var_count E) < 2 ^ 32"
  have "unat ` set (variables E n) = set (map unat (variables E n))" by simp
  also have "\<dots> = support_of E n"
    unfolding variables_unat[OF a] by (auto simp: support_of_def var_count_def simp del: upt_Suc)
  finally show ?thesis .
qed


lemma variables_lit_ok:
  "Suc (var_count E) < 2 ^ 32 \<Longrightarrow> v \<in> set (variables E n) \<Longrightarrow>
     v \<noteq> 0 \<and> sdd_lit_ok E (lit_of_var v) \<and> sdd_lit_ok E (lit_not (lit_of_var v))"
proof -
  assume a: "Suc (var_count E) < 2 ^ 32" and v: "v \<in> set (variables E n)"
  from v have "unat v \<in> support_of E n" using variables_support[OF a, of n] by blast
  then have r: "1 \<le> unat v" "unat v \<le> sdd_manager_var_count E" by (simp_all add: support_of_def)
  then have "v \<noteq> 0" by (cases "v = 0") simp_all
  then show ?thesis using r by (simp add: sdd_lit_ok_def sdd_var_lit_of_var sdd_var_var_not)
qed

lemma depends_only_on_empty: "depends_only_on f {} \<Longrightarrow> f a = f b"
  by (simp add: depends_only_on_def)

lemma depends_only_on_condition:
  assumes c: "sdd_contract E ok sem" and l: "sdd_lit_ok E l" and n: "ok n"
    and d: "depends_only_on (sem n) (insert (sdd_var l) V)"
  shows "depends_only_on (sem (condition E n l)) V"
  unfolding depends_only_on_def
proof (intro allI impI)
  fix a b :: assignment assume ab: "\<forall>v\<in>V. a v = b v"
  have "\<forall>v\<in>insert (sdd_var l) V. (a(sdd_var l := sdd_pos l)) v = (b(sdd_var l := sdd_pos l)) v"
    using ab by simp
  then have "sem n (a(sdd_var l := sdd_pos l)) = sem n (b(sdd_var l := sdd_pos l))"
    using d unfolding depends_only_on_def by blast
  then show "sem (condition E n l) a = sem (condition E n l) b"
    by (simp only: contract_sem_condition[OF c l n])
qed

lemma sat_condition:
  assumes c: "sdd_contract E ok sem" and n: "ok n"
    and lp: "sdd_lit_ok E lp" "sdd_pos lp" and ln: "sdd_lit_ok E ln" "\<not> sdd_pos ln" "sdd_var ln = sdd_var lp"
    and sat: "sem n a" and u: "is_unsat E (condition E n lp)"
  shows "\<exists>a. sem (condition E n ln) a"
proof -
  have p: "\<not> sem n (a(sdd_var lp := True))"
    using u contract_is_unsat[OF c contract_ok_condition[OF c lp(1) n]]
      contract_sem_condition[OF c lp(1) n] lp(2) by simp
  have "\<not> a (sdd_var lp)"
  proof
    assume "a (sdd_var lp)"
    then have "a(sdd_var lp := True) = a" by (rule_tac ext) simp
    with p sat show False by simp
  qed
  then have "a(sdd_var lp := False) = a" by (rule_tac ext) simp
  then have "sem n (a(sdd_var ln := sdd_pos ln))" using sat ln by simp
  then have "sem (condition E n ln) a" by (simp only: contract_sem_condition[OF c ln(1) n])
  then show ?thesis by blast
qed

lemma model_loop_inv:
  assumes c: "sdd_contract E ok sem"
    and vs: "\<forall>v\<in>set vars. v \<noteq> 0 \<and> sdd_lit_ok E (lit_of_var v) \<and> sdd_lit_ok E (lit_not (lit_of_var v))"
  shows "ok n \<Longrightarrow> \<exists>a. sem n a \<Longrightarrow> depends_only_on (sem n) (unat ` set (drop i vars)) \<Longrightarrow>
         \<exists>m'. model_loop E vars n i m = (Inr (Some (m @ m')), i + length m') \<and>
               i + length m' \<le> max i (length vars) \<and>
               list_all2 lit_for m' (take (length m') (drop i vars)) \<and>
               is_valid E (foldl (condition E) n m')"
proof (induction "length vars - i" arbitrary: n i m)
  case 0
  then have "drop i vars = []" by simp
  then have "depends_only_on (sem n) {}" using "0.prems"(3) by simp
  then have "\<forall>a. sem n a" using "0.prems"(2) depends_only_on_empty by metis
  then have v: "is_valid E n" and u: "\<not> is_unsat E n"
    using contract_is_valid[OF c "0.prems"(1)] contract_is_unsat[OF c "0.prems"(1)] by simp_all
  have "model_loop E vars n i m = (Inr (Some m), i)"
    using v u by (subst model_loop.simps) simp
  then show ?case using v by simp
next
  case (Suc k)
  have u: "\<not> is_unsat E n" using contract_is_unsat[OF c Suc.prems(1)] Suc.prems(2) by simp
  show ?case
  proof (cases "is_valid E n")
    case True
    have "model_loop E vars n i m = (Inr (Some m), i)"
      using True u by (subst model_loop.simps) simp
    then show ?thesis using True by simp
  next
    case False
    have i: "i < length vars" using Suc.hyps(2) by simp
    define v where "v = vars ! i"
    have vin: "v \<in> set vars" using i by (simp add: v_def)
    have v0: "v \<noteq> 0" and lp: "sdd_lit_ok E (lit_of_var v)" and ln: "sdd_lit_ok E (lit_not (lit_of_var v))"
      using vs vin by blast+
    have dr: "drop i vars = v # drop (Suc i) vars" using i by (simp add: v_def Cons_nth_drop_Suc)
    define lit' where "lit' = (if is_unsat E (condition E n (lit_of_var v)) then lit_not (lit_of_var v) else lit_of_var v)"
    define choice' where "choice' = condition E n lit'"
    have lf: "lit_for lit' v" by (simp add: lit'_def lit_for_def)
    have l': "sdd_lit_ok E lit'" "sdd_var lit' = unat v" using lp ln
      by (simp_all add: lit'_def sdd_var_lit_of_var sdd_var_var_not)
    have ok': "ok choice'" unfolding choice'_def by (rule contract_ok_condition[OF c l'(1) Suc.prems(1)])
    have sat': "\<exists>a. sem choice' a"
    proof (cases "is_unsat E (condition E n (lit_of_var v))")
      case True
      from Suc.prems(2) obtain a where a: "sem n a" by blast
      have "\<exists>a. sem (condition E n (lit_not (lit_of_var v))) a"
        by (rule sat_condition[OF c Suc.prems(1) lp _ ln _ _ a True])
           (simp_all add: sdd_pos_lit_of_var sdd_pos_var_not sdd_var_lit_of_var sdd_var_var_not v0)
      then show ?thesis using True by (simp add: choice'_def lit'_def)
    next
      case False
      then have "\<exists>a. sem (condition E n (lit_of_var v)) a"
        using contract_is_unsat[OF c contract_ok_condition[OF c lp Suc.prems(1)]] by simp
      moreover have "choice' = condition E n (lit_of_var v)"
        using False by (simp add: choice'_def lit'_def)
      ultimately show ?thesis by simp
    qed
    have "depends_only_on (sem n) (insert (sdd_var lit') (unat ` set (drop (Suc i) vars)))"
      using Suc.prems(3) by (simp add: dr l'(2))
    then have dep': "depends_only_on (sem choice') (unat ` set (drop (Suc i) vars))"
      unfolding choice'_def by (rule depends_only_on_condition[OF c l'(1) Suc.prems(1)])
    have k: "k = length vars - Suc i" using Suc.hyps(2) by simp
    from Suc.hyps(1)[OF k ok' sat' dep', of "m @ [lit']"] obtain m' where
      m': "model_loop E vars choice' (Suc i) (m @ [lit']) = (Inr (Some ((m @ [lit']) @ m')), Suc i + length m')"
          "Suc i + length m' \<le> max (Suc i) (length vars)"
          "list_all2 lit_for m' (take (length m') (drop (Suc i) vars))"
          "is_valid E (foldl (condition E) choice' m')"
      by blast
    have step: "model_loop E vars n i m = model_loop E vars choice' (Suc i) (m @ [lit'])"
      using u False i by (subst model_loop.simps) (simp add: Let_def choice'_def lit'_def v_def)
    have "model_loop E vars n i m = (Inr (Some (m @ (lit' # m'))), i + length (lit' # m'))"
      using step m'(1) by simp
    moreover have "i + length (lit' # m') \<le> max i (length vars)" using m'(2) i by simp
    moreover have "list_all2 lit_for (lit' # m') (take (length (lit' # m')) (drop i vars))"
      using m'(3) lf by (simp add: dr)
    moreover have "is_valid E (foldl (condition E) n (lit' # m'))"
      using m'(4) by (simp add: choice'_def)
    ultimately show ?thesis by blast
  qed
qed

lemma variables_lits_ok:
  assumes "sdd_contract E ok sem"
  shows "\<forall>v\<in>set (variables E n). v \<noteq> 0 \<and> sdd_lit_ok E (lit_of_var v) \<and> sdd_lit_ok E (lit_not (lit_of_var v))"
proof
  fix v assume "v \<in> set (variables E n)"
  then show "v \<noteq> 0 \<and> sdd_lit_ok E (lit_of_var v) \<and> sdd_lit_ok E (lit_not (lit_of_var v))"
    by (rule variables_lit_ok[OF contract_bound[OF assms]])
qed

lemma model_of_sat:
  assumes c: "sdd_contract E ok sem" and n: "ok n" and s: "\<not> is_unsat E n"
  shows "\<exists>m. model_loop E (variables E n) n 0 [] = (Inr (Some m), length m) \<and>
             length m \<le> length (variables E n) \<and>
             list_all2 lit_for m (take (length m) (variables E n)) \<and>
             is_valid E (foldl (condition E) n m)"
proof -
  have sat: "\<exists>a. sem n a" using s contract_is_unsat[OF c n] by simp
  have "depends_only_on (sem n) (unat ` set (drop 0 (variables E n)))"
    using contract_support[OF c n] variables_support[OF contract_bound[OF c], of n] by simp
  from model_loop_inv[OF c variables_lits_ok[OF c] n sat this, of "[]"] obtain m where
    "model_loop E (variables E n) n 0 [] = (Inr (Some ([] @ m)), 0 + length m)"
    "0 + length m \<le> max 0 (length (variables E n))"
    "list_all2 lit_for m (take (length m) (drop 0 (variables E n)))"
    "is_valid E (foldl (condition E) n m)"
    by blast
  then have "model_loop E (variables E n) n 0 [] = (Inr (Some m), length m) \<and>
             length m \<le> length (variables E n) \<and>
             list_all2 lit_for m (take (length m) (variables E n)) \<and>
             is_valid E (foldl (condition E) n m)"
    by simp
  then show ?thesis by (rule exI)
qed

lemma model_of_unsat: "is_unsat E n \<Longrightarrow> model_loop E vars n 0 [] = (Inr None, 0)"
  by (subst model_loop.simps) simp

lemma support_subset:
  assumes c: "sdd_contract E ok sem" and r: "ok r" and d: "depends_only_on (sem r) V"
  shows "support_of E r \<subseteq> V"
proof
  fix i assume "i \<in> support_of E r"
  then have "depends_on (sem r) i" by (rule contract_essential[OF c r])
  then obtain a where a: "sem r (a(i := True)) \<noteq> sem r (a(i := False))"
    unfolding depends_on_def by blast
  show "i \<in> V"
  proof (rule ccontr)
    assume "i \<notin> V"
    then have "\<forall>v\<in>V. (a(i := True)) v = (a(i := False)) v" by auto
    then have "sem r (a(i := True)) = sem r (a(i := False))"
      using d unfolding depends_only_on_def by blast
    with a show False by simp
  qed
qed

lemma foldl_condition_depends:
  assumes c: "sdd_contract E ok sem"
  shows "list_all2 lit_for ls vs \<Longrightarrow> ok n \<Longrightarrow>
         \<forall>v\<in>set vs. v \<noteq> 0 \<and> sdd_lit_ok E (lit_of_var v) \<and> sdd_lit_ok E (lit_not (lit_of_var v)) \<Longrightarrow>
         depends_only_on (sem n) (unat ` set vs \<union> V) \<Longrightarrow>
         ok (foldl (condition E) n ls) \<and> depends_only_on (sem (foldl (condition E) n ls)) V"
proof (induction arbitrary: n rule: list_all2_induct)
  case Nil
  then show ?case by simp
next
  case (Cons l ls v vs)
  have lok: "sdd_lit_ok E l" using Cons.hyps(1) Cons.prems(2) by (auto simp: lit_for_def)
  have lv: "sdd_var l = unat v" using Cons.hyps(1) by (rule lit_for_sdd_var)
  have ok': "ok (condition E n l)" by (rule contract_ok_condition[OF c lok Cons.prems(1)])
  have "depends_only_on (sem n) (insert (sdd_var l) (unat ` set vs \<union> V))"
    using Cons.prems(3) by (simp add: lv)
  then have d': "depends_only_on (sem (condition E n l)) (unat ` set vs \<union> V)"
    by (rule depends_only_on_condition[OF c lok Cons.prems(1)])
  have vs': "\<forall>v\<in>set vs. v \<noteq> 0 \<and> sdd_lit_ok E (lit_of_var v) \<and> sdd_lit_ok E (lit_not (lit_of_var v))"
    using Cons.prems(2) by simp
  show ?case using Cons.IH[OF ok' vs' d'] by simp
qed

lemma residual_variables:
  assumes c: "sdd_contract E ok sem" and n: "ok n"
    and m: "list_all2 lit_for m (take (length m) (variables E n))" and k: "k \<le> length m"
  shows "set (variables E (foldl (condition E) n (take k m))) \<subseteq> set (drop k (variables E n))"
proof -
  let ?vars = "variables E n"
  have b: "Suc (var_count E) < 2 ^ 32" by (rule contract_bound[OF c])
  have lk: "k \<le> length ?vars" using list_all2_lengthD[OF m] k by simp
  have "list_all2 lit_for (take k m) (take k (take (length m) ?vars))"
    using m by (rule list_all2_takeI)
  then have tk: "list_all2 lit_for (take k m) (take k ?vars)" using k by (simp add: min_def)
  have vs: "\<forall>v\<in>set (take k ?vars). v \<noteq> 0 \<and> sdd_lit_ok E (lit_of_var v) \<and> sdd_lit_ok E (lit_not (lit_of_var v))"
    using variables_lits_ok[OF c, of n] by (meson in_set_takeD)
  have "unat ` set (take k ?vars) \<union> unat ` set (drop k ?vars) = unat ` set ?vars"
    by (metis append_take_drop_id image_Un set_append)
  then have "depends_only_on (sem n) (unat ` set (take k ?vars) \<union> unat ` set (drop k ?vars))"
    using contract_support[OF c n] variables_support[OF b, of n] by simp
  from foldl_condition_depends[OF c tk n vs this]
  have r: "ok (foldl (condition E) n (take k m))"
    and d: "depends_only_on (sem (foldl (condition E) n (take k m))) (unat ` set (drop k ?vars))"
    by simp_all
  have "unat ` set (variables E (foldl (condition E) n (take k m))) \<subseteq> unat ` set (drop k ?vars)"
    using support_subset[OF c r d] variables_support[OF b] by simp
  moreover have "inj (unat :: unsigned \<Rightarrow> nat)"
    by (rule injI) (rule word_unat_eq_iff[THEN iffD2])
  ultimately show ?thesis by (simp only: inj_image_subset_iff)
qed


lemma contract_ok_negate: "sdd_contract E ok sem \<Longrightarrow> ok n \<Longrightarrow> ok (negate E n)"
  by (simp add: sdd_contract_def engine_closed_def negate_def)

lemma contract_sem_negate: "sdd_contract E ok sem \<Longrightarrow> ok n \<Longrightarrow> sem (negate E n) a = (\<not> sem n a)"
  by (simp add: sdd_contract_def engine_sem_def negate_def)

lemma var_lit_ok:
  "1 \<le> unat v \<Longrightarrow> unat v \<le> var_count E \<Longrightarrow> sdd_lit_ok E (lit_of_var v) \<and> sdd_pos (lit_of_var v)"
proof -
  assume a: "1 \<le> unat v" "unat v \<le> var_count E"
  then have "v \<noteq> 0" by (cases "v = 0") simp_all
  then show ?thesis using a
    by (simp add: sdd_lit_ok_def sdd_var_lit_of_var sdd_pos_lit_of_var var_count_def)
qed

lemma contract_ok_exists_var:
  "sdd_contract E ok sem \<Longrightarrow> 1 \<le> unat v \<Longrightarrow> unat v \<le> var_count E \<Longrightarrow> ok n \<Longrightarrow> ok (exists_var E v n)"
  using var_lit_ok[of v E]
  by (simp add: sdd_contract_def engine_closed_def exists_var_def lit_of_var_def)

lemma contract_sem_exists_var:
  "sdd_contract E ok sem \<Longrightarrow> 1 \<le> unat v \<Longrightarrow> unat v \<le> var_count E \<Longrightarrow> ok n \<Longrightarrow>
     sem (exists_var E v n) a = (sem n (a(unat v := True)) \<or> sem n (a(unat v := False)))"
  using var_lit_ok[of v E] sdd_var_lit_of_var[of v]
  by (simp add: sdd_contract_def engine_sem_def exists_var_def lit_of_var_def)

lemma contract_ok_forall_var:
  "sdd_contract E ok sem \<Longrightarrow> 1 \<le> unat v \<Longrightarrow> unat v \<le> var_count E \<Longrightarrow> ok n \<Longrightarrow> ok (forall_var E v n)"
  using var_lit_ok[of v E]
  by (simp add: sdd_contract_def engine_closed_def forall_var_def lit_of_var_def)

lemma contract_sem_forall_var:
  "sdd_contract E ok sem \<Longrightarrow> 1 \<le> unat v \<Longrightarrow> unat v \<le> var_count E \<Longrightarrow> ok n \<Longrightarrow>
     sem (forall_var E v n) a = (sem n (a(unat v := True)) \<and> sem n (a(unat v := False)))"
  using var_lit_ok[of v E] sdd_var_lit_of_var[of v]
  by (simp add: sdd_contract_def engine_sem_def forall_var_def lit_of_var_def)

lemma contract_ok_exists_multiple:
  "sdd_contract E ok sem \<Longrightarrow> ok n \<Longrightarrow> length msk = Suc (var_count E) \<Longrightarrow> ok (sdd_exists_multiple E msk n)"
  by (simp add: sdd_contract_def engine_closed_def var_count_def)

lemma contract_sem_exists_multiple:
  "sdd_contract E ok sem \<Longrightarrow> ok n \<Longrightarrow> length msk = Suc (var_count E) \<Longrightarrow>
     sem (sdd_exists_multiple E msk n) a =
       (\<exists>b. (\<forall>i. (1 \<le> i \<and> i \<le> var_count E \<and> msk ! i \<noteq> 0) \<or> b i = a i) \<and> sem n b)"
  by (simp add: sdd_contract_def engine_sem_def var_count_def)

lemma exists_one_variable:
  "(\<exists>b::assignment. (\<forall>i. i = x \<or> b i = a i) \<and> P b) = (P (a(x := True)) \<or> P (a(x := False)))"
proof
  assume "\<exists>b. (\<forall>i. i = x \<or> b i = a i) \<and> P b"
  then obtain b where b: "\<forall>i. i = x \<or> b i = a i" "P b" by blast
  have "b = a(x := b x)"
  proof (rule ext)
    fix i show "b i = (a(x := b x)) i" using b(1) by (cases "i = x") auto
  qed
  then have "P (a(x := b x))" using b(2) by simp
  then show "P (a(x := True)) \<or> P (a(x := False))" by (cases "b x") simp_all
next
  assume "P (a(x := True)) \<or> P (a(x := False))"
  then obtain c where "P (a(x := c))" by blast
  moreover have "\<forall>i. i = x \<or> (a(x := c)) i = a i" by simp
  ultimately show "\<exists>b. (\<forall>i. i = x \<or> b i = a i) \<and> P b" by blast
qed

lemma exists_vars_single:
  assumes c: "sdd_contract E ok sem" and n: "ok n" and v: "1 \<le> unat v" "unat v \<le> var_count E"
  shows "\<exists>m. exists_vars E [v] n = Inr m \<and> ok m \<and>
             (\<forall>a. sem m a = (sem n (a(unat v := True)) \<or> sem n (a(unat v := False))))"
proof -
  define msk :: "int list" where "msk = (replicate (var_count E + 1) 0)[unat v := 1]"
  have len: "length msk = Suc (var_count E)"
    by (simp only: msk_def length_list_update length_replicate Suc_eq_plus1)
  have e: "exists_vars E [v] n = Inr (sdd_exists_multiple E msk n)"
    using v(2) by (simp add: exists_vars_def msk_def del: replicate.simps)
  have nth: "msk ! i = (if i = unat v then 1 else 0)" if "i \<le> var_count E" for i
  proof -
    have l: "unat v < length (replicate (var_count E + 1) (0::int))" using v(2) by simp
    have r: "replicate (var_count E + 1) (0::int) ! i = 0"
      by (rule nth_replicate) (use that in simp)
    have "msk ! i = (replicate (var_count E + 1) 0)[unat v := 1] ! i" by (simp only: msk_def)
    also have "\<dots> = (if unat v = i then 1 else replicate (var_count E + 1) 0 ! i)"
      by (rule nth_list_update[OF l])
    also have "\<dots> = (if unat v = i then 1 else 0)" by (simp only: r)
    finally show ?thesis by auto
  qed
  have bit: "(1 \<le> i \<and> i \<le> var_count E \<and> msk ! i \<noteq> 0) = (i = unat v)" for i
    using v nth[of i] by (auto split: if_splits)
  have "sem (sdd_exists_multiple E msk n) a = (sem n (a(unat v := True)) \<or> sem n (a(unat v := False)))" for a
    by (simp only: contract_sem_exists_multiple[OF c n len] bit exists_one_variable)
  then show ?thesis
    using e contract_ok_exists_multiple[OF c n len] by simp
qed


lemma contract_ok_literal: "sdd_contract E ok sem \<Longrightarrow> sdd_lit_ok E l \<Longrightarrow> ok (sdd_manager_literal E l)"
  by (simp add: sdd_contract_def engine_closed_def)

lemma contract_sem_literal:
  "sdd_contract E ok sem \<Longrightarrow> sdd_lit_ok E l \<Longrightarrow> sem (sdd_manager_literal E l) a = (a (sdd_var l) = sdd_pos l)"
  by (simp add: sdd_contract_def engine_sem_def)

lemma value_literal_1:
  assumes c: "sdd_contract E ok sem" and vc: "var_count E = 2"
  shows "\<exists>x1. mgr_literal E 1 = Inr x1 \<and> node_value E x1 1 = Some True \<and>
              node_value E x1 (- 1) = Some False \<and> node_value E x1 2 = None"
proof -
  define x1 where "x1 = sdd_manager_literal E 1"
  have lv: "unat (lit_variable 1) = 1" by (simp add: lit_variable_def word_sless_alt)
  have m: "mgr_literal E 1 = Inr x1" by (simp add: mgr_literal_def Let_def lv vc x1_def)
  have ok1: "sdd_lit_ok E 1" "sdd_lit_ok E (- 1)" "sdd_lit_ok E 2" "sdd_lit_ok E (- 2)"
    using vc by (simp_all add: sdd_lit_ok_def small_literals var_count_def)
  have okx: "ok x1" unfolding x1_def by (rule contract_ok_literal[OF c ok1(1)])
  have sx: "sem x1 a = a 1" for a
    unfolding x1_def by (simp add: contract_sem_literal[OF c ok1(1)] small_literals)
  have u: "is_unsat E (condition E x1 l) = (\<forall>a. \<not> (a(sdd_var l := sdd_pos l)) 1)" if "sdd_lit_ok E l" for l
    by (simp only: contract_is_unsat[OF c contract_ok_condition[OF c that okx]]
        contract_sem_condition[OF c that okx] sx)
  have p1: "\<not> is_unsat E (condition E x1 1)"
    by (simp add: u[OF ok1(1)] small_literals)
  have n1: "is_unsat E (condition E x1 (- 1))"
    by (simp add: u[OF ok1(2)] small_literals)
  have p2: "\<not> is_unsat E (condition E x1 2)"
    unfolding u[OF ok1(3)] by (simp add: small_literals) (rule exI[of _ "\<lambda>_. True"], simp)
  have n2: "\<not> is_unsat E (condition E x1 (- 2))"
    unfolding u[OF ok1(4)] by (simp add: small_literals) (rule exI[of _ "\<lambda>_. True"], simp)
  have "node_value E x1 1 = Some True" using p1 n1 by (simp add: node_value_def lit_not_def)
  moreover have "node_value E x1 (- 1) = Some False" using n1 by (simp add: node_value_def)
  moreover have "node_value E x1 2 = None" using p2 n2 by (simp add: node_value_def lit_not_def)
  ultimately show ?thesis using m by blast
qed


section \<open>node::model\<close>



text \<open>
  C7 (amended). On an engine that satisfies the contract, the loop of \<open>model(n)\<close> ends after
  at most \<open>|variables(n)|\<close> iterations and never by the exception of \<^verbatim>\<open>vars.at(i)\<close>:
  iteration \<open>k\<close> fixes the value of the \<open>k\<close>-th variable of \<open>variables(n)\<close>, and after \<open>k\<close>
  iterations the variables of the residual are among the variables of \<open>n\<close> not fixed yet.
\<close>

theorem model_iterations_bound:
  assumes "sdd_contract E ok sem" and "ok n"
  shows "model_iterations E n \<le> length (variables E n) \<and>
         model E n \<noteq> Inl OutOfRange \<and>
         (\<forall>m. model E n = Inr (Some m) \<longrightarrow>
            model_iterations E n = length m \<and>
            map lit_variable m = take (length m) (variables E n) \<and>
            (\<forall>k\<le>length m.
               set (variables E (foldl (condition E) n (take k m))) \<subseteq> set (drop k (variables E n))))"
proof (cases "is_unsat E n")
  case True
  then show ?thesis by (simp add: model_def model_iterations_def model_of_unsat)
next
  case False
  from model_of_sat[OF assms this] obtain m where
    m: "model_loop E (variables E n) n 0 [] = (Inr (Some m), length m)"
       "length m \<le> length (variables E n)"
       "list_all2 lit_for m (take (length m) (variables E n))"
    by blast
  have r: "\<forall>k\<le>length m. set (variables E (foldl (condition E) n (take k m))) \<subseteq> set (drop k (variables E n))"
    using residual_variables[OF assms m(3)] by blast
  have mm: "model E n = Inr (Some m)" and mi: "model_iterations E n = length m"
    using m(1) by (simp_all add: model_def model_iterations_def)
  have mv: "map lit_variable m = take (length m) (variables E n)"
    by (rule list_all2_lit_for_map[OF m(3)])
  show ?thesis
  proof (intro conjI allI impI)
    show "model_iterations E n \<le> length (variables E n)" using mi m(2) by simp
    show "model E n \<noteq> Inl OutOfRange" using mm by simp
  next
    fix m' assume "model E n = Inr (Some m')"
    then have e: "m' = m" using mm by simp
    show "model_iterations E n = length m'" using mi e by simp
    show "map lit_variable m' = take (length m') (variables E n)" using mv e by simp
    fix k assume "k \<le> length m'"
    then show "set (variables E (foldl (condition E) n (take k m'))) \<subseteq> set (drop k (variables E n))"
      using r e by blast
  qed
qed

section \<open>forall\<close>

text \<open>
  C3. On an engine that satisfies the contract, for every variable \<open>v\<close> of the manager and
  every node \<open>n\<close>: \<open>forall(v, n)\<close>, which calls the engine's forall primitive, equals
  \<open>negate(exists(v, negate(n)))\<close>, and the multi-variable \<open>forall([v], n)\<close>, which negates
  the engine's multi-variable exists, returns the same node.
\<close>

theorem forall_de_morgan:
  assumes "sdd_contract E ok sem" and "ok n" and "1 \<le> unat v" and "unat v \<le> var_count E"
  shows "forall_var E v n = negate E (exists_var E v (negate E n)) \<and>
         forall_vars E [v] n = Inr (forall_var E v n)"
proof
  note c = assms(1) and n = assms(2) and v = assms(3,4)
  have nn: "ok (negate E n)" by (rule contract_ok_negate[OF c n])
  have en: "ok (exists_var E v (negate E n))" by (rule contract_ok_exists_var[OF c v nn])
  have f: "ok (forall_var E v n)" by (rule contract_ok_forall_var[OF c v n])
  have "sem (forall_var E v n) a = sem (negate E (exists_var E v (negate E n))) a" for a
    by (simp add: contract_sem_forall_var[OF c v n] contract_sem_negate[OF c en]
        contract_sem_exists_var[OF c v nn] contract_sem_negate[OF c n])
  then show 1: "forall_var E v n = negate E (exists_var E v (negate E n))"
    using contract_canonical[OF c f contract_ok_negate[OF c en]] by blast
  from exists_vars_single[OF c nn v] obtain m where
    m: "exists_vars E [v] (negate E n) = Inr m" "ok m"
       "\<forall>a. sem m a = (sem (negate E n) (a(unat v := True)) \<or> sem (negate E n) (a(unat v := False)))"
    by blast
  have "sem (negate E m) a = sem (forall_var E v n) a" for a
    by (simp add: contract_sem_negate[OF c m(2)] m(3) contract_sem_negate[OF c n]
        contract_sem_forall_var[OF c v n])
  then have "negate E m = forall_var E v n"
    using contract_canonical[OF c contract_ok_negate[OF c m(2)] f] by blast
  then show "forall_vars E [v] n = Inr (forall_var E v n)"
    using m(1) by (simp add: forall_vars_def)
qed

section \<open>node::value\<close>

text \<open>
  C4. \<open>value(n, lit)\<close> is \<open>false\<close> exactly when \<open>condition(n, lit)\<close> is unsat, \<open>true\<close> exactly
  when \<open>condition(n, lit)\<close> is not unsat and \<open>condition(n, !lit)\<close> is, and nothing exactly when
  neither is unsat. On a manager with 2 variables whose engine satisfies the contract,
  for \<open>n = literal(1)\<close>: \<open>value(n, 1)\<close> is true, \<open>value(n, -1)\<close> is false and \<open>value(n, 2)\<close>
  is nothing.
\<close>

theorem node_value_spec:
  "(node_value E n lit = Some False \<longleftrightarrow> is_unsat E (condition E n lit)) \<and>
   (node_value E n lit = Some True \<longleftrightarrow>
      \<not> is_unsat E (condition E n lit) \<and> is_unsat E (condition E n (lit_not lit))) \<and>
   (node_value E n lit = None \<longleftrightarrow>
      \<not> is_unsat E (condition E n lit) \<and> \<not> is_unsat E (condition E n (lit_not lit))) \<and>
   (sdd_contract E ok sem \<and> var_count E = 2 \<longrightarrow>
      (\<exists>x1. mgr_literal E 1 = Inr x1 \<and> node_value E x1 1 = Some True \<and>
            node_value E x1 (- 1) = Some False \<and> node_value E x1 2 = None))"
  using value_literal_1[of E ok sem] by (auto simp: node_value_def)


text \<open>
  C10. On an engine for which conditioning a constant node is a no-op, \<open>value(n, lit)\<close> of
  an unsat node \<open>n\<close> is \<open>false\<close> (not nothing) for every literal: the conditioning on \<open>lit\<close>
  is tested first and is unsat.
\<close>

theorem value_of_unsat:
  "condition_keeps_constants E \<Longrightarrow> is_unsat E n \<Longrightarrow> node_value E n lit = Some False"
  by (simp add: condition_keeps_constants_def node_value_def condition_def is_unsat_def)


section \<open>node::rename\<close>

lemma rename_fill_length: "length (fst (rename_fill renaming is s m)) = length m"
  by (induction "is" arbitrary: s m) (auto split: prod.splits)

lemma rename_fill_untouched: "j \<notin> set is \<Longrightarrow> fst (rename_fill renaming is s m) ! j = m ! j"
  by (induction "is" arbitrary: s m) (auto split: prod.splits)

lemma rename_fill_pure:
  "rename_fill (\<lambda>v s. (f v, s)) is s m =
     (fold (\<lambda>i m. m[i := lit_of_var (f (word_of_nat i))]) is m, s)"
  by (induction "is" arbitrary: m) auto

lemma fold_update_nth:
  "j < length m \<Longrightarrow> (fold (\<lambda>i m. m[i := g i]) is m) ! j = (if j \<in> set is then g j else m ! j)"
proof (induction "is" arbitrary: m)
  case Nil
  show ?case by simp
next
  case (Cons i "is")
  have l: "j < length (m[i := g i])" using Cons.prems by simp
  show ?case using Cons.IH[OF l] Cons.prems by (auto simp: nth_list_update)
qed

lemma fold_update_length: "length (fold (\<lambda>i m. m[i := g i]) is m) = length m"
  by (induction "is" arbitrary: m) auto

lemma dense_map:
  "fold (\<lambda>i m. m[i := g i]) [1..<Suc n] (replicate (n + 1) (0::long)) = 0 # map g [1..<Suc n]"
proof (rule nth_equalityI)
  show "length (fold (\<lambda>i m. m[i := g i]) [1..<Suc n] (replicate (n + 1) (0::long))) = length (0 # map g [1..<Suc n])"
    by (simp add: fold_update_length del: upt_Suc replicate.simps)
next
  fix j assume "j < length (fold (\<lambda>i m. m[i := g i]) [1..<Suc n] (replicate (n + 1) (0::long)))"
  then have j: "j < n + 1" by (simp add: fold_update_length del: upt_Suc replicate.simps)
  then have jl: "j < length (replicate (n + 1) (0::long))" by simp
  have r: "replicate (n + 1) (0::long) ! j = 0" using j by (intro nth_replicate)
  show "fold (\<lambda>i m. m[i := g i]) [1..<Suc n] (replicate (n + 1) (0::long)) ! j = (0 # map g [1..<Suc n]) ! j"
  proof (cases j)
    case 0
    then show ?thesis unfolding fold_update_nth[OF jl] r by (simp del: upt_Suc replicate.simps)
  next
    case (Suc j')
    then have "j' < length [1..<Suc n]" using j by simp
    then have "map g [1..<Suc n] ! j' = g ([1..<Suc n] ! j')" by (rule nth_map)
    also have "[1..<Suc n] ! j' = j" using Suc j by (simp del: upt_Suc)
    finally have "(0 # map g [1..<Suc n]) ! j = g j" using Suc by simp
    moreover have "j \<in> set [1..<Suc n]" using Suc j by (simp del: upt_Suc)
    ultimately show ?thesis unfolding fold_update_nth[OF jl] by (simp del: upt_Suc replicate.simps)
  qed
qed


text \<open>
  C6. \<open>rename(n, renaming)\<close> builds an array of length \<open>var_count() + 1\<close> (entry 0 stays 0;
  for a callback that leaves the manager alone, entry \<open>i\<close> is the literal of \<open>renaming(i)\<close>),
  then compares \<open>var_count()\<close> with its value at entry. If it is unchanged, \<open>rename\<close> calls
  the engine's rename primitive exactly once, with that array, and returns its node. If
  the callback changed \<open>var_count()\<close>, the assertion fails: the outcome is an abort, not an
  exception, and the engine's rename primitive is not called.
\<close>

theorem rename_spec:
  assumes "rename E renaming nd = (res, E', calls)"
  shows "(var_count E' = var_count E \<longrightarrow>
            (\<exists>m. res = Returned (sdd_rename_variables E' nd m) \<and>
                 length m = var_count E + 1 \<and> m ! 0 = 0 \<and>
                 calls = [Call_var_count, Call_var_count, Call_rename_variables m])) \<and>
         (var_count E' \<noteq> var_count E \<longrightarrow>
            res = Aborted \<and> calls = [Call_var_count, Call_var_count]) \<and>
         ((\<forall>v s. renaming v s = (f v, s)) \<longrightarrow>
            E' = E \<and>
            res = Returned (sdd_rename_variables E nd
                    (0 # map (\<lambda>i. lit_of_var (f (word_of_nat i))) [1..<Suc (var_count E)])))"
proof -
  define n where "n = var_count E"
  obtain m E'' where fill: "rename_fill renaming [1..<Suc n] E (replicate (n + 1) 0) = (m, E'')"
    by (cases "rename_fill renaming [1..<Suc n] E (replicate (n + 1) 0)") blast
  have r: "(res, E', calls) =
      (if var_count E'' \<noteq> n then (Aborted, E'', [Call_var_count, Call_var_count])
       else (Returned (sdd_rename_variables E'' nd m), E'',
             [Call_var_count, Call_var_count, Call_rename_variables m]))"
    using assms fill by (simp add: rename_def Let_def n_def del: upt_Suc replicate.simps)
  have E': "E' = E''" using r by (simp split: if_splits)
  have len: "length m = n + 1"
    using rename_fill_length[of renaming "[1..<Suc n]" E "replicate (n + 1) 0"] fill by simp
  have "0 \<notin> set [1..<Suc n]" by (simp del: upt_Suc)
  then have "fst (rename_fill renaming [1..<Suc n] E (replicate (n + 1) 0)) ! 0 = replicate (n + 1) (0::long) ! 0"
    by (rule rename_fill_untouched)
  then have m0: "m ! 0 = 0" using fill by simp
  have pure: "E'' = E \<and> m = 0 # map (\<lambda>i. lit_of_var (f (word_of_nat i))) [1..<Suc n]"
    if "\<forall>v s. renaming v s = (f v, s)"
  proof -
    from that have "renaming = (\<lambda>v s. (f v, s))" by (intro ext) simp
    then show ?thesis using fill by (simp only: rename_fill_pure dense_map prod.inject)
  qed
  show ?thesis
  proof (intro conjI impI)
    assume "var_count E' = var_count E"
    then show "\<exists>m. res = Returned (sdd_rename_variables E' nd m) \<and> length m = var_count E + 1 \<and> m ! 0 = 0 \<and>
                 calls = [Call_var_count, Call_var_count, Call_rename_variables m]"
      using r E' len m0 by (simp add: n_def)
  next
    assume "var_count E' \<noteq> var_count E"
    then show "res = Aborted" "calls = [Call_var_count, Call_var_count]"
      using r E' by (simp_all add: n_def)
  next
    assume p: "\<forall>v s. renaming v s = (f v, s)"
    show "E' = E" using pure[OF p] E' by simp
    show "res = Returned (sdd_rename_variables E nd
                    (0 # map (\<lambda>i. lit_of_var (f (word_of_nat i))) [1..<Suc (var_count E)]))"
      using pure[OF p] r E' by (simp add: n_def del: upt_Suc)
  qed
qed

section \<open>Reference counts\<close>

lemma count_list_update:
  "i < length xs \<Longrightarrow>
     count_list (xs[i := y]) z + (if xs ! i = z then 1 else 0) = count_list xs z + (if y = z then 1 else 0)"
proof (induction xs arbitrary: i)
  case Nil
  then show ?case by simp
next
  case (Cons x xs)
  show ?case
  proof (cases i)
    case 0
    then show ?thesis by simp
  next
    case (Suc i')
    then have "i' < length xs" using Cons.prems by simp
    from Cons.IH[OF this] Suc show ?thesis by (auto split: if_splits)
  qed
qed

lemma filter_length_update:
  "i < length xs \<Longrightarrow>
     length (filter P (xs[i := y])) + (if P (xs ! i) then 1 else 0) =
       length (filter P xs) + (if P y then 1 else 0)"
proof (induction xs arbitrary: i)
  case Nil
  then show ?case by simp
next
  case (Cons x xs)
  show ?case
  proof (cases i)
    case 0
    then show ?thesis by simp
  next
    case (Suc i')
    then have "i' < length xs" using Cons.prems by simp
    from Cons.IH[OF this] Suc show ?thesis by simp
  qed
qed

lemma count_list_0: "z \<notin> set xs \<Longrightarrow> count_list xs z = 0"
  by (induction xs) auto

lemma count_list_pos: "z \<in> set xs \<Longrightarrow> 0 < count_list xs z"
  by (induction xs) auto

lemma rc_inv_init: "rc_inv rc_init"
  by (simp add: rc_inv_def rc_init_def live_blocks_def)

lemma rc_inv_ctor:
  assumes "rc_inv s"
  shows "rc_inv (node_ctor x s)"
proof -
  let ?L = "length (blocks s)"
  have u: "\<forall>b<?L. snd (blocks s ! b) = count_list (handles s) (Some b)"
    and r: "\<forall>b. Some b \<in> set (handles s) \<longrightarrow> b < ?L"
    and e: "\<forall>y. engine_refs s y = live_blocks s y"
    using assms by (simp_all add: rc_inv_def)
  have fresh: "count_list (handles s) (Some ?L) = 0"
    by (rule count_list_0) (use r in blast)
  have 1: "\<forall>b<length (blocks (node_ctor x s)).
            snd (blocks (node_ctor x s) ! b) = count_list (handles (node_ctor x s)) (Some b)"
  proof (intro allI impI)
    fix b assume "b < length (blocks (node_ctor x s))"
    then have "b < ?L \<or> b = ?L" by (auto simp: node_ctor_def)
    then show "snd (blocks (node_ctor x s) ! b) = count_list (handles (node_ctor x s)) (Some b)"
      using u fresh by (auto simp: node_ctor_def nth_append)
  qed
  have 2: "\<forall>b. Some b \<in> set (handles (node_ctor x s)) \<longrightarrow> b < length (blocks (node_ctor x s))"
    using r by (auto simp: node_ctor_def)
  have 3: "\<forall>y. engine_refs (node_ctor x s) y = live_blocks (node_ctor x s) y"
    using e by (simp add: node_ctor_def live_blocks_def)
  show ?thesis unfolding rc_inv_def using 1 2 3 by blast
qed

lemma rc_inv_copy:
  assumes "rc_inv s" and h: "h < length (handles s)"
  shows "rc_inv (node_copy h s)"
proof (cases "handles s ! h")
  case None
  then show ?thesis using assms(1) by (simp add: rc_inv_def node_copy_def live_blocks_def)
next
  case (Some b)
  let ?L = "length (blocks s)"
  have u: "\<forall>b<?L. snd (blocks s ! b) = count_list (handles s) (Some b)"
    and r: "\<forall>b. Some b \<in> set (handles s) \<longrightarrow> b < ?L"
    and e: "\<forall>y. engine_refs s y = live_blocks s y"
    using assms(1) by (simp_all add: rc_inv_def)
  have bin: "Some b \<in> set (handles s)" using Some h by (metis nth_mem)
  then have bl: "b < ?L" using r by blast
  have c: "0 < snd (blocks s ! b)" using u bl count_list_pos[OF bin] by simp
  have s': "node_copy h s =
      s\<lparr> blocks := (blocks s)[b := (fst (blocks s ! b), snd (blocks s ! b) + 1)],
         handles := handles s @ [Some b] \<rparr>"
    using Some by (simp add: node_copy_def)
  have 1: "\<forall>b'<length (blocks (node_copy h s)).
            snd (blocks (node_copy h s) ! b') = count_list (handles (node_copy h s)) (Some b')"
    using u bl unfolding s' by (auto simp: nth_list_update)
  have 2: "\<forall>b'. Some b' \<in> set (handles (node_copy h s)) \<longrightarrow> b' < length (blocks (node_copy h s))"
    using r bl unfolding s' by auto
  have 3: "\<forall>y. engine_refs (node_copy h s) y = live_blocks (node_copy h s) y"
  proof
    fix y
    let ?P = "\<lambda>bl::nat \<times> nat. fst bl = y \<and> 0 < snd bl"
    have "?P (fst (blocks s ! b), snd (blocks s ! b) + 1) = ?P (blocks s ! b)" using c by simp
    then have "length (filter ?P ((blocks s)[b := (fst (blocks s ! b), snd (blocks s ! b) + 1)])) = length (filter ?P (blocks s))"
      using filter_length_update[OF bl, of ?P "(fst (blocks s ! b), snd (blocks s ! b) + 1)"] by simp
    then show "engine_refs (node_copy h s) y = live_blocks (node_copy h s) y"
      using e unfolding s' by (simp add: live_blocks_def)
  qed
  show ?thesis unfolding rc_inv_def using 1 2 3 by blast
qed

lemma rc_inv_move:
  assumes "rc_inv s" and h: "h < length (handles s)"
  shows "rc_inv (node_move h s)"
proof -
  let ?L = "length (blocks s)"
  have u: "\<forall>b<?L. snd (blocks s ! b) = count_list (handles s) (Some b)"
    and r: "\<forall>b. Some b \<in> set (handles s) \<longrightarrow> b < ?L"
    and e: "\<forall>y. engine_refs s y = live_blocks s y"
    using assms(1) by (simp_all add: rc_inv_def)
  have cnt: "count_list ((handles s)[h := None] @ [handles s ! h]) (Some b) = count_list (handles s) (Some b)" for b
    using count_list_update[OF h, of None "Some b"] by auto
  have mem: "Some b \<in> set ((handles s)[h := None] @ [handles s ! h]) \<Longrightarrow> Some b \<in> set (handles s)" for b
    using h by (auto dest: set_update_subset_insert[THEN subsetD])
  show ?thesis
    unfolding rc_inv_def using u r e cnt mem by (auto simp: node_move_def live_blocks_def)
qed

lemma rc_inv_dtor:
  assumes "rc_inv s" and h: "h < length (handles s)"
  shows "rc_inv (node_dtor h s)"
proof (cases "handles s ! h")
  case None
  then show ?thesis using assms(1) by (simp add: node_dtor_def)
next
  case (Some b)
  let ?L = "length (blocks s)"
  let ?x = "fst (blocks s ! b)" and ?c = "snd (blocks s ! b)"
  have u: "\<forall>b<?L. snd (blocks s ! b) = count_list (handles s) (Some b)"
    and r: "\<forall>b. Some b \<in> set (handles s) \<longrightarrow> b < ?L"
    and e: "\<forall>y. engine_refs s y = live_blocks s y"
    using assms(1) by (simp_all add: rc_inv_def)
  have bin: "Some b \<in> set (handles s)" using Some h by (metis nth_mem)
  then have bl: "b < ?L" using r by blast
  have c: "0 < ?c" using u bl count_list_pos[OF bin] by simp
  have hs: "handles (node_dtor h s) = (handles s)[h := None]"
    and bs: "blocks (node_dtor h s) = (blocks s)[b := (?x, ?c - 1)]"
    and es: "engine_refs (node_dtor h s) =
               (if ?c = 1 then (engine_refs s)(?x := engine_refs s ?x - 1) else engine_refs s)"
    using Some by (simp_all add: node_dtor_def Let_def)
  have cnt: "count_list ((handles s)[h := None]) (Some b') + (if b' = b then 1 else 0) = count_list (handles s) (Some b')" for b'
    using count_list_update[OF h, of None "Some b'"] Some by auto
  have 1: "\<forall>b'<length (blocks (node_dtor h s)).
            snd (blocks (node_dtor h s) ! b') = count_list (handles (node_dtor h s)) (Some b')"
  proof (intro allI impI)
    fix b' assume "b' < length (blocks (node_dtor h s))"
    then have b': "b' < ?L" by (simp add: bs)
    show "snd (blocks (node_dtor h s) ! b') = count_list (handles (node_dtor h s)) (Some b')"
      using u b' bl cnt[of b'] by (cases "b' = b") (auto simp: hs bs nth_list_update)
  qed
  have 2: "\<forall>b'. Some b' \<in> set (handles (node_dtor h s)) \<longrightarrow> b' < length (blocks (node_dtor h s))"
    using r by (auto simp: hs bs dest: set_update_subset_insert[THEN subsetD])
  have 3: "\<forall>y. engine_refs (node_dtor h s) y = live_blocks (node_dtor h s) y"
  proof
    fix y
    let ?P = "\<lambda>bl::nat \<times> nat. fst bl = y \<and> 0 < snd bl"
    have f: "length (filter ?P ((blocks s)[b := (?x, ?c - 1)])) + (if ?P (blocks s ! b) then 1 else 0) =
             length (filter ?P (blocks s)) + (if ?P (?x, ?c - 1) then 1 else 0)"
      by (rule filter_length_update[OF bl])
    show "engine_refs (node_dtor h s) y = live_blocks (node_dtor h s) y"
      using f e c by (auto simp: es bs live_blocks_def split: if_splits)
  qed
  show ?thesis unfolding rc_inv_def using 1 2 3 by blast
qed

lemma rc_inv_elements: "rc_inv s \<Longrightarrow> rc_inv (elements_handles es s)"
  by (induction es s rule: elements_handles.induct) (simp_all add: rc_inv_ctor)

lemma rc_inv_step: "rc_inv s \<Longrightarrow> rc_step c s = Some s' \<Longrightarrow> rc_inv s'"
  by (cases c) (auto simp: rc_inv_ctor rc_inv_copy rc_inv_move rc_inv_dtor rc_inv_elements split: if_splits)

lemma rc_inv_run: "rc_inv s \<Longrightarrow> rc_run cs s = Some s' \<Longrightarrow> rc_inv s'"
proof (induction cs arbitrary: s)
  case Nil
  then show ?case by simp
next
  case (Cons c cs)
  then show ?case by (auto split: option.splits dest: rc_inv_step)
qed

lemma live_iff:
  assumes "rc_inv s"
  shows "0 < live_handles s x \<longleftrightarrow> 0 < live_blocks s x"
proof
  let ?L = "length (blocks s)"
  have u: "\<forall>b<?L. snd (blocks s ! b) = count_list (handles s) (Some b)"
    and r: "\<forall>b. Some b \<in> set (handles s) \<longrightarrow> b < ?L"
    using assms by (simp_all add: rc_inv_def)
  {
    assume "0 < live_handles s x"
    then obtain hx where hx: "hx \<in> set (handles s)" "case hx of None \<Rightarrow> False | Some b \<Rightarrow> fst (blocks s ! b) = x"
      unfolding live_handles_def by (auto simp: length_greater_0_conv filter_empty_conv simp del: length_0_conv)
    obtain b where b: "hx = Some b" "fst (blocks s ! b) = x" using hx(2) by (cases hx) auto
    then have bl: "b < ?L" using r hx(1) by blast
    have "0 < snd (blocks s ! b)" using u bl count_list_pos[of "Some b" "handles s"] hx(1) b(1) by simp
    then have "\<exists>bk\<in>set (blocks s). fst bk = x \<and> 0 < snd bk" using b(2) bl by (metis nth_mem)
    then show "0 < live_blocks s x"
      unfolding live_blocks_def by (auto simp: length_greater_0_conv filter_empty_conv simp del: length_0_conv)
  }
  {
    assume "0 < live_blocks s x"
    then obtain bk where bk: "bk \<in> set (blocks s)" "fst bk = x" "0 < snd bk"
      unfolding live_blocks_def by (auto simp: length_greater_0_conv filter_empty_conv simp del: length_0_conv)
    then obtain b where b: "b < ?L" "blocks s ! b = bk" by (metis in_set_conv_nth)
    have "snd (blocks s ! b) = count_list (handles s) (Some b)" using u b(1) by blast
    then have "0 < count_list (handles s) (Some b)" using bk(3) b(2) by simp
    then have "Some b \<in> set (handles s)" using count_list_0 by (metis less_numeral_extra(3))
    then have "\<exists>hx\<in>set (handles s). case hx of None \<Rightarrow> False | Some b \<Rightarrow> fst (blocks s ! b) = x"
      using b(2) bk(2) by force
    then show "0 < live_handles s x"
      unfolding live_handles_def by (auto simp: length_greater_0_conv filter_empty_conv simp del: length_0_conv)
  }
qed

lemma engine_refs_elements:
  "engine_refs (elements_handles es s) x =
     engine_refs s x + count_list (map fst es) x + count_list (map snd es) x"
  by (induction es s rule: elements_handles.induct) (auto simp: node_ctor_def)

lemma handles_elements:
  "length (handles (elements_handles es s)) = length (handles s) + 2 * length es"
  by (induction es s rule: elements_handles.induct) (auto simp: node_ctor_def)


text \<open>
  C9 (amended). In every state that a program over handles reaches: the engine's
  reference count of a node is the number of live control blocks for it, and it is
  positive exactly when some live handle refers to the node, so no node is released to
  the engine while a handle to it (also one inside an element) is alive. Constructing a
  handle from an engine node increments the count by one (\<open>elements\<close> does so once for each
  prime and each sub); copying and moving a handle leave it unchanged; destroying a
  handle decrements it by one exactly when no other handle shares the handle's control
  block.
\<close>

theorem refcount_shared_ownership:
  assumes "rc_run cs rc_init = Some s"
  shows "engine_refs s x = live_blocks s x \<and>
         (0 < live_handles s x \<longleftrightarrow> 0 < engine_refs s x) \<and>
         engine_refs (node_ctor y s) = (engine_refs s)(y := engine_refs s y + 1) \<and>
         engine_refs (elements_handles es s) x =
           engine_refs s x + count_list (map fst es) x + count_list (map snd es) x \<and>
         (h < length (handles s) \<longrightarrow>
            engine_refs (node_copy h s) = engine_refs s \<and>
            engine_refs (node_move h s) = engine_refs s) \<and>
         (h < length (handles s) \<and> handles s ! h = Some b \<longrightarrow>
            engine_refs (node_dtor h s) =
              (if count_list (handles s) (Some b) = 1
               then (engine_refs s)(fst (blocks s ! b) := engine_refs s (fst (blocks s ! b)) - 1)
               else engine_refs s))"
proof -
  have inv: "rc_inv s" using rc_inv_run[OF rc_inv_init assms] .
  have 1: "engine_refs s x = live_blocks s x" using inv by (simp add: rc_inv_def)
  have 2: "0 < live_handles s x \<longleftrightarrow> 0 < engine_refs s x" using live_iff[OF inv] 1 by simp
  have 3: "engine_refs (node_ctor y s) = (engine_refs s)(y := engine_refs s y + 1)"
    by (simp add: node_ctor_def)
  have 4: "engine_refs (node_copy h s) = engine_refs s \<and> engine_refs (node_move h s) = engine_refs s"
    by (simp add: node_copy_def node_move_def split: option.splits)
  have 5: "engine_refs (node_dtor h s) =
              (if count_list (handles s) (Some b) = 1
               then (engine_refs s)(fst (blocks s ! b) := engine_refs s (fst (blocks s ! b)) - 1)
               else engine_refs s)"
    if h: "h < length (handles s)" and b: "handles s ! h = Some b"
  proof -
    have "Some b \<in> set (handles s)" using h b by (metis nth_mem)
    then have "b < length (blocks s)" using inv by (simp add: rc_inv_def)
    then have "snd (blocks s ! b) = count_list (handles s) (Some b)" using inv by (simp add: rc_inv_def)
    then show ?thesis using b by (simp add: node_dtor_def Let_def)
  qed
  show ?thesis using 1 2 3 4 5 engine_refs_elements by blast
qed


section \<open>Instances on the reference engine\<close>

text \<open>
  The theorems above, applied to concrete nodes on reference engines with two and three
  variables; the wrapper is evaluated there.
\<close>

lemma ref2: "sdd_contract (ref_engine 2) (full 2) ref_sem"
  by (rule ref_contract) simp

lemma ref3: "sdd_contract (ref_engine 3) (full 3) ref_sem"
  by (rule ref_contract) simp

theorem node_value_spec_witness:
  "sdd_contract (ref_engine 2) (full 2) ref_sem \<and> var_count (ref_engine 2) = 2 \<and>
   mgr_literal (ref_engine 2) 1 = Inr (lit_bf 2 1 True) \<and>
   node_value (ref_engine 2) (lit_bf 2 1 True) 1 = Some True \<and>
   node_value (ref_engine 2) (lit_bf 2 1 True) (- 1) = Some False \<and>
   node_value (ref_engine 2) (lit_bf 2 1 True) 2 = None"
proof -
  have vc: "var_count (ref_engine 2) = 2" by (simp add: var_count_def ref_engine_def)
  have m: "mgr_literal (ref_engine 2) 1 = Inr (lit_bf 2 1 True)" by code_simp
  from node_value_spec[of "ref_engine 2" "lit_bf 2 1 True" 1 "full 2" ref_sem] ref2 vc
  obtain x1 where "mgr_literal (ref_engine 2) 1 = Inr x1" "node_value (ref_engine 2) x1 1 = Some True"
    "node_value (ref_engine 2) x1 (- 1) = Some False" "node_value (ref_engine 2) x1 2 = None"
    by blast
  then show ?thesis using ref2 vc m by simp
qed

theorem value_of_unsat_witness:
  "condition_keeps_constants (ref_engine 2) \<and> is_unsat (ref_engine 2) (const_bf 2 False) \<and>
   node_value (ref_engine 2) (const_bf 2 False) 1 = Some False \<and>
   node_value (ref_engine 2) (const_bf 2 False) (- 2) = Some False \<and>
   node_value (ref_engine 2) (const_bf 2 False) 7 = Some False"
proof -
  have u: "is_unsat (ref_engine 2) (const_bf 2 False)" by (simp add: is_unsat_def ref_engine_def)
  show ?thesis
    using value_of_unsat[OF ref_keeps_constants u] ref_keeps_constants u by simp
qed

theorem condition_short_circuit_witness:
  "condition_keeps_constants (ref_engine 2) \<and>
   is_valid (ref_engine 2) (condition (ref_engine 2) (lit_bf 2 1 True) 1) \<and>
   condition_lits (ref_engine 2) (lit_bf 2 1 True) [1, 2, - 1] =
     foldl (condition (ref_engine 2)) (lit_bf 2 1 True) [1, 2, - 1] \<and>
   condition_lits (ref_engine 2) (lit_bf 2 1 True) [1, 2, - 1] = const_bf 2 True"
proof -
  have v: "is_valid (ref_engine 2) (condition (ref_engine 2) (lit_bf 2 1 True) 1)" by code_simp
  have r: "condition_lits (ref_engine 2) (lit_bf 2 1 True) [1, 2, - 1] = const_bf 2 True" by code_simp
  show ?thesis
    using condition_short_circuit[OF ref_keeps_constants, where n = "lit_bf 2 1 True" and lits = "[1, 2, - 1]"]
      ref_keeps_constants v r by simp
qed



theorem model_iterations_bound_witness:
  "sdd_contract (ref_engine 3) (full 3) ref_sem \<and> full 3 x1_x3_or_x2_x3 \<and>
   model (ref_engine 3) x1_x3_or_x2_x3 = Inr (Some [1, 2, 3]) \<and>
   model_iterations (ref_engine 3) x1_x3_or_x2_x3 = 3 \<and>
   model_iterations (ref_engine 3) x1_x3_or_x2_x3 \<le> length (variables (ref_engine 3) x1_x3_or_x2_x3) \<and>
   (2::nat) \<le> length [1, 2, 3 :: literal] \<and>
   set (variables (ref_engine 3) (foldl (condition (ref_engine 3)) x1_x3_or_x2_x3 (take 2 [1, 2, 3])))
     \<subseteq> set (drop 2 (variables (ref_engine 3) x1_x3_or_x2_x3))"
proof -
  have f: "full 3 x1_x3_or_x2_x3" by code_simp
  have m: "model (ref_engine 3) x1_x3_or_x2_x3 = Inr (Some [1, 2, 3])" by code_simp
  have i: "model_iterations (ref_engine 3) x1_x3_or_x2_x3 = 3" by code_simp
  note t = model_iterations_bound[OF ref3 f]
  have 1: "model_iterations (ref_engine 3) x1_x3_or_x2_x3 \<le> length (variables (ref_engine 3) x1_x3_or_x2_x3)"
    using t by blast
  have "\<forall>k\<le>length [1, 2, 3 :: literal].
          set (variables (ref_engine 3) (foldl (condition (ref_engine 3)) x1_x3_or_x2_x3 (take k [1, 2, 3])))
            \<subseteq> set (drop k (variables (ref_engine 3) x1_x3_or_x2_x3))"
    using t m by blast
  then have 2: "set (variables (ref_engine 3) (foldl (condition (ref_engine 3)) x1_x3_or_x2_x3 (take 2 [1, 2, 3])))
     \<subseteq> set (drop 2 (variables (ref_engine 3) x1_x3_or_x2_x3))"
    by (rule allE[where x = 2]) simp
  show ?thesis using ref3 f m i 1 2 by simp
qed

text \<open>
  For \<open>(x1 \<and> x3) \<or> (\<not>x1 \<and> x2 \<and> x3)\<close> the first iteration leaves the residual \<open>x3\<close>; the
  second conditions it on variable 2, the next variable of the original support, and the
  residual's variables are \<open>[3]\<close> before and after.
\<close>

theorem model_residual_support_counterexample:
  "full 3 x1_x3_or_x2_x3 \<and>
   variables (ref_engine 3) x1_x3_or_x2_x3 = [1, 2, 3] \<and>
   model (ref_engine 3) x1_x3_or_x2_x3 = Inr (Some [1, 2, 3]) \<and>
   variables (ref_engine 3) (condition (ref_engine 3) x1_x3_or_x2_x3 1) = [3] \<and>
   variables (ref_engine 3) (condition (ref_engine 3) (condition (ref_engine 3) x1_x3_or_x2_x3 1) 2) = [3]"
  by code_simp

theorem forall_de_morgan_witness:
  "sdd_contract (ref_engine 2) (full 2) ref_sem \<and> full 2 x1_or_x2 \<and>
   1 \<le> unat (1 :: variable) \<and> unat (1 :: variable) \<le> var_count (ref_engine 2) \<and>
   forall_var (ref_engine 2) 1 x1_or_x2 =
     negate (ref_engine 2) (exists_var (ref_engine 2) 1 (negate (ref_engine 2) x1_or_x2)) \<and>
   forall_vars (ref_engine 2) [1] x1_or_x2 = Inr (forall_var (ref_engine 2) 1 x1_or_x2) \<and>
   forall_var (ref_engine 2) 1 x1_or_x2 = sdd_manager_literal (ref_engine 2) 2"
proof -
  have f: "full 2 x1_or_x2" by code_simp
  have v: "1 \<le> unat (1 :: variable)" "unat (1 :: variable) \<le> var_count (ref_engine 2)"
    by (simp_all add: var_count_def ref_engine_def)
  have r: "forall_var (ref_engine 2) 1 x1_or_x2 = sdd_manager_literal (ref_engine 2) 2" by code_simp
  show ?thesis using forall_de_morgan[OF ref2 f v] ref2 f v r by simp
qed

theorem rename_spec_witness:
  "fst (rename (ref_engine 2) keep x1_or_x2) = Returned x1_or_x2 \<and>
   snd (snd (rename (ref_engine 2) keep x1_or_x2)) =
     [Call_var_count, Call_var_count, Call_rename_variables [0, 1, 2]] \<and>
   var_count (fst (snd (rename (ref_engine 2) keep_and_add_var x1_or_x2))) = 4 \<and>
   var_count (ref_engine 2) = 2 \<and>
   fst (rename (ref_engine 2) keep_and_add_var x1_or_x2) = Aborted \<and>
   snd (snd (rename (ref_engine 2) keep_and_add_var x1_or_x2)) = [Call_var_count, Call_var_count]"
proof -
  let ?E = "ref_engine 2"
  let ?r = "rename ?E keep x1_or_x2" and ?a = "rename ?E keep_and_add_var x1_or_x2"
  have vc: "var_count ?E = 2" by code_simp
  have k: "\<forall>v s. keep v s = (v, s :: bf engine)" by (simp add: keep_def)
  have "?r = (fst ?r, fst (snd ?r), snd (snd ?r))" by simp
  from rename_spec[OF this, where f = "\<lambda>v. v"] k
  have E: "fst (snd ?r) = ?E"
    and res: "fst ?r = Returned (sdd_rename_variables ?E x1_or_x2
                (0 # map (\<lambda>i. lit_of_var (word_of_nat i)) [1..<Suc (var_count ?E)]))"
    and unch: "var_count (fst (snd ?r)) = var_count ?E \<longrightarrow>
            (\<exists>m. fst ?r = Returned (sdd_rename_variables (fst (snd ?r)) x1_or_x2 m) \<and>
                 length m = var_count ?E + 1 \<and> m ! 0 = 0 \<and>
                 snd (snd ?r) = [Call_var_count, Call_var_count, Call_rename_variables m])"
    by blast+
  have m: "0 # map (\<lambda>i. lit_of_var (word_of_nat i)) [1..<Suc (var_count ?E)] = [0, 1, 2]" by code_simp
  have id: "sdd_rename_variables ?E x1_or_x2 [0, 1, 2] = x1_or_x2" by code_simp
  have 1: "fst ?r = Returned x1_or_x2" using res m id by simp
  from unch E obtain m' where m': "fst ?r = Returned (sdd_rename_variables ?E x1_or_x2 m')"
      "snd (snd ?r) = [Call_var_count, Call_var_count, Call_rename_variables m']" by auto
  have 2: "snd (snd ?r) = [Call_var_count, Call_var_count, Call_rename_variables [0, 1, 2]]" by code_simp
  have grown: "var_count (fst (snd ?a)) = 4" by code_simp
  have "?a = (fst ?a, fst (snd ?a), snd (snd ?a))" by simp
  from rename_spec[OF this] grown vc
  have 3: "fst ?a = Aborted" "snd (snd ?a) = [Call_var_count, Call_var_count]" by simp_all
  show ?thesis using 1 2 grown vc 3 by blast
qed

theorem refcount_shared_ownership_witness:
  "rc_run [Construct 5, Copy 0, Destroy 0] rc_init = Some (node_dtor 0 (node_copy 0 (node_ctor 5 rc_init))) \<and>
   engine_refs (node_dtor 0 (node_copy 0 (node_ctor 5 rc_init))) 5 = 1 \<and>
   live_blocks (node_dtor 0 (node_copy 0 (node_ctor 5 rc_init))) 5 = 1 \<and>
   live_handles (node_dtor 0 (node_copy 0 (node_ctor 5 rc_init))) 5 = 1 \<and>
   1 < length (handles (node_dtor 0 (node_copy 0 (node_ctor 5 rc_init)))) \<and>
   handles (node_dtor 0 (node_copy 0 (node_ctor 5 rc_init))) ! 1 = Some 0 \<and>
   engine_refs (node_copy 1 (node_dtor 0 (node_copy 0 (node_ctor 5 rc_init)))) 5 = 1 \<and>
   engine_refs (node_dtor 1 (node_dtor 0 (node_copy 0 (node_ctor 5 rc_init)))) 5 = 0 \<and>
   engine_refs (elements_handles [(5, 7)] (node_dtor 0 (node_copy 0 (node_ctor 5 rc_init)))) 5 = 2"
proof -
  define s where "s = node_dtor 0 (node_copy 0 (node_ctor 5 rc_init))"
  have run: "rc_run [Construct 5, Copy 0, Destroy 0] rc_init = Some s"
    by (simp add: s_def node_ctor_def node_copy_def rc_init_def)
  have e: "engine_refs s 5 = 1" unfolding s_def by code_simp
  have lh: "live_handles s 5 = 1" unfolding s_def by code_simp
  have h: "1 < length (handles s)" unfolding s_def by code_simp
  have b: "handles s ! 1 = Some 0" unfolding s_def by code_simp
  have c: "count_list (handles s) (Some 0) = 1" unfolding s_def by code_simp
  have n: "fst (blocks s ! 0) = 5" unfolding s_def by code_simp
  note t = refcount_shared_ownership[OF run, where x = 5 and h = 1 and b = 0 and es = "[(5, 7)]" and y = 0]
  have t1: "engine_refs s 5 = live_blocks s 5" using t by blast
  have t4: "engine_refs (node_copy 1 s) = engine_refs s" using t h by blast
  have t5: "engine_refs (node_dtor 1 s) =
              (if count_list (handles s) (Some 0) = 1
               then (engine_refs s)(fst (blocks s ! 0) := engine_refs s (fst (blocks s ! 0)) - 1)
               else engine_refs s)" using t h b by blast
  have t6: "engine_refs (elements_handles [(5, 7)] s) 5 =
           engine_refs s 5 + count_list (map fst [(5::nat, 7::nat)]) 5 + count_list (map snd [(5::nat, 7::nat)]) 5"
    using t by blast
  have lb: "live_blocks s 5 = 1" using t1 e by simp
  have cp: "engine_refs (node_copy 1 s) 5 = 1" using t4 e by simp
  have dt: "engine_refs (node_dtor 1 s) 5 = 0" unfolding t5 c n using e by simp
  have el: "engine_refs (elements_handles [(5, 7)] s) 5 = 2" unfolding t6 e by simp
  show ?thesis using run e lb lh h b cp dt el unfolding s_def by blast
qed

text \<open>
  A handle and its copy are two live handles on one engine reference; and of two handles
  constructed separately for the same engine node, destroying one calls \<^verbatim>\<open>sdd_deref\<close>
  while the other is alive (the count goes from 2 to 1).
\<close>

theorem refcount_per_live_handle_counterexample:
  "live_handles (node_copy 0 (node_ctor 0 rc_init)) 0 = 2 \<and>
   engine_refs (node_copy 0 (node_ctor 0 rc_init)) 0 = 1 \<and>
   engine_refs (node_ctor 0 (node_ctor 0 rc_init)) 0 = 2 \<and>
   engine_refs (node_dtor 0 (node_ctor 0 (node_ctor 0 rc_init))) 0 = 1 \<and>
   live_handles (node_dtor 0 (node_ctor 0 (node_ctor 0 rc_init))) 0 = 1"
  by code_simp

end
